theory Spec2Isabelle
  imports Main "HOL-Library.Word"
begin

section \<open>ECMAScript strings\<close>

text \<open>
  An ECMAScript string is a sequence of 16-bit code units. The script compares code units
  and never computes with them, so a string is a list of 16-bit words; \<open>ascii\<close> embeds
  the ASCII literals of the source.
\<close>

type_synonym jsstring = "16 word list"

abbreviation ascii :: "string \<Rightarrow> jsstring" where
  "ascii \<equiv> map of_char"

text \<open>
  \<open>LineTerminator\<close> of the language: what \<open>.\<close> refuses and what \<open>^\<close> under the
  \<open>m\<close> flag looks back at.
\<close>

definition line_terminator :: "16 word \<Rightarrow> bool" where
  "line_terminator c \<longleftrightarrow> c = 0x0A \<or> c = 0x0D \<or> c = 0x2028 \<or> c = 0x2029"

text \<open>\<open>WhiteSpace\<close> and \<open>LineTerminator\<close>: the code units \<open>String.prototype.trim\<close> strips.\<close>

definition white_space :: "16 word \<Rightarrow> bool" where
  "white_space c \<longleftrightarrow>
     c = 0x09 \<or> c = 0x0A \<or> c = 0x0B \<or> c = 0x0C \<or> c = 0x0D \<or> c = 0x20 \<or> c = 0xA0 \<or>
     c = 0x1680 \<or> (0x2000 \<le> c \<and> c \<le> 0x200A) \<or> c = 0x2028 \<or> c = 0x2029 \<or>
     c = 0x202F \<or> c = 0x205F \<or> c = 0x3000 \<or> c = 0xFEFF"

definition trim :: "jsstring \<Rightarrow> jsstring" where
  "trim s = rev (dropWhile white_space (rev (dropWhile white_space s)))"

definition starts_with :: "jsstring \<Rightarrow> jsstring \<Rightarrow> bool" where
  "starts_with d s \<longleftrightarrow> take (length d) s = d"

section \<open>Values received from the server\<close>

text \<open>
  The values \<open>JSON.parse\<close> can produce, and \<open>undefined\<close> for a property that is not
  there. A number is kept as the text \<open>ToString\<close> gives for it: the script only ever
  prints numbers. An object is the list of its own properties.
\<close>

datatype jsval =
    Undefined
  | Null
  | Bool bool
  | Num jsstring
  | Str jsstring
  | Arr "jsval list"
  | Obj "(jsstring \<times> jsval) list"

datatype js_error =
    FetchRejected
  | ResponseNotOk
  | JsonSyntaxError
  | TypeError

fun join_comma :: "jsstring list \<Rightarrow> jsstring" where
  "join_comma [] = []"
| "join_comma [x] = x"
| "join_comma (x # y # ys) = x @ ascii '','' @ join_comma (y # ys)"

text \<open>
  \<open>ToString\<close>, as a template literal applies it to \<open>${data.disease}\<close> and as the
  assignment to a string attribute applies it. An array joins the strings of its
  elements, \<open>null\<close> and \<open>undefined\<close> counting as empty. An object is converted by its
  \<open>toString\<close>, then by its \<open>valueOf\<close>: a parsed object with no property \<open>toString\<close>
  of its own inherits the one that answers \<open>[object Object]\<close>; with one of its own (a
  parsed value, never a function) neither method yields a primitive, and the conversion
  throws a \<open>TypeError\<close>.
\<close>

fun ToString :: "jsval \<Rightarrow> js_error + jsstring"
  and element_strings :: "jsval list \<Rightarrow> js_error + jsstring list" where
  "ToString Undefined = Inr (ascii ''undefined'')"
| "ToString Null = Inr (ascii ''null'')"
| "ToString (Bool b) = Inr (if b then ascii ''true'' else ascii ''false'')"
| "ToString (Num t) = Inr t"
| "ToString (Str s) = Inr s"
| "ToString (Arr xs) =
     (case element_strings xs of Inl e \<Rightarrow> Inl e | Inr ss \<Rightarrow> Inr (join_comma ss))"
| "ToString (Obj kvs) =
     (if map_of kvs (ascii ''toString'') = None then Inr (ascii ''[object Object]'')
      else Inl TypeError)"
| "element_strings [] = Inr []"
| "element_strings (x # xs) =
     (case (if x = Undefined \<or> x = Null then Inr [] else ToString x) of
        Inl e \<Rightarrow> Inl e
      | Inr s \<Rightarrow>
          (case element_strings xs of Inl e \<Rightarrow> Inl e | Inr ss \<Rightarrow> Inr (s # ss)))"

text \<open>
  \<open>data.mode\<close>, \<open>data.response\<close>, \<open>data.symptoms\<close>, \<open>data.disease\<close>: reading a property
  of \<open>null\<close> throws; an object answers with its own property; every other value has no
  property of these four names.
\<close>

fun get_prop :: "jsval \<Rightarrow> jsstring \<Rightarrow> js_error + jsval" where
  "get_prop Null k = Inl TypeError"
| "get_prop Undefined k = Inl TypeError"
| "get_prop (Obj kvs) k = Inr (case map_of kvs k of None \<Rightarrow> Undefined | Some v \<Rightarrow> v)"
| "get_prop v k = Inr Undefined"

text \<open>The decimal digits of an array length, as the template literal prints it.\<close>

function decimal :: "nat \<Rightarrow> jsstring" where
  "decimal n =
     (if n < 10 then [of_nat (48 + n)] else decimal (n div 10) @ [of_nat (48 + n mod 10)])"
  by pat_completeness auto
termination
  by (relation "measure id") auto

declare decimal.simps [simp del]

section \<open>Plain turns: escaping and formatting (\<open>addMessage\<close>, lines 126 to 138)\<close>

text \<open>
  \<open>tempDiv.textContent = text\<close>: the attribute is a nullable string, so \<open>null\<close> and
  \<open>undefined\<close> become the empty text and any other value its \<open>ToString\<close>, which may
  throw.
\<close>

definition textContent :: "jsval \<Rightarrow> js_error + jsstring" where
  "textContent text = (if text = Undefined \<or> text = Null then Inr [] else ToString text)"

text \<open>
  \<open>tempDiv.innerHTML\<close> read back: the serialisation of one text node, which escapes
  \<open>&\<close>, the no-break space, \<open><\<close> and \<open>>\<close>.
\<close>

definition escape_unit :: "16 word \<Rightarrow> jsstring" where
  "escape_unit c =
     (if c = 0x26 then ascii ''&amp;''
      else if c = 0xA0 then ascii ''&nbsp;''
      else if c = 0x3C then ascii ''&lt;''
      else if c = 0x3E then ascii ''&gt;''
      else [c])"

definition safeText :: "jsstring \<Rightarrow> jsstring" where
  "safeText content = concat (map escape_unit content)"

text \<open>
  The lazy group \<open>(.*?)\<close> followed by the closing delimiter \<open>d\<close>: the shortest run of
  code units, none a line terminator, after which \<open>d\<close> stands. The result is the captured
  run and what follows the delimiter.
\<close>

fun find_close :: "jsstring \<Rightarrow> jsstring \<Rightarrow> (jsstring \<times> jsstring) option" where
  "find_close d [] = (if d = [] then Some ([], []) else None)"
| "find_close d (c # cs) =
     (if starts_with d (c # cs) then Some ([], drop (length d) (c # cs))
      else if line_terminator c then None
      else map_option (\<lambda>(cap, rest). (c # cap, rest)) (find_close d cs))"

lemma find_close_length:
  "find_close d s = Some (cap, rest) \<Longrightarrow> length s = length cap + length d + length rest"
proof (induction s arbitrary: cap)
  case Nil
  then show ?case by (simp split: if_splits)
next
  case (Cons c cs)
  show ?case
  proof (cases "starts_with d (c # cs)")
    case True
    then have "take (length d) (c # cs) = d"
      by (simp only: starts_with_def)
    then have "length d \<le> length (c # cs)"
      by (metis length_take min.cobounded1)
    with True Cons.prems show ?thesis by auto
  next
    case False
    with Cons.prems obtain cap' where
      "find_close d cs = Some (cap', rest)" "cap = c # cap'"
      by (auto split: if_splits)
    with Cons.IH [of cap'] show ?thesis by simp
  qed
qed

text \<open>
  \<open>s.replace(/D(.*?)D/g, open + '$1' + close)\<close> for a literal delimiter \<open>D\<close>: the
  scan goes left to right; where the pattern matches, the match is replaced and the scan
  goes on behind it; where it does not, the code unit is copied.
\<close>

function replace_delimited :: "jsstring \<Rightarrow> jsstring \<Rightarrow> jsstring \<Rightarrow> jsstring \<Rightarrow> jsstring" where
  "replace_delimited d opn cls [] = []"
| "replace_delimited d opn cls (c # cs) =
     (if d \<noteq> [] \<and> starts_with d (c # cs) then
        (case find_close d (drop (length d) (c # cs)) of
           Some (cap, rest) \<Rightarrow> opn @ cap @ cls @ replace_delimited d opn cls rest
         | None \<Rightarrow> c # replace_delimited d opn cls cs)
      else c # replace_delimited d opn cls cs)"
  by pat_completeness auto
termination
proof (relation "measure (\<lambda>(d, opn, cls, s). length s)")
  fix d :: jsstring and c cs x cap rest
  assume d: "d \<noteq> [] \<and> starts_with d (c # cs)"
    and f: "find_close d (drop (length d) (c # cs)) = Some x" and x: "(cap, rest) = x"
  from f x have "length (drop (length d) (c # cs)) = length cap + length d + length rest"
    using find_close_length [of d "drop (length d) (c # cs)" cap rest] by simp
  with d have "length rest < length (c # cs)"
    by (cases d) auto
  then show "((d, opn, cls, rest), d, opn, cls, c # cs) \<in> measure (\<lambda>(d, opn, cls, s). length s)"
    for opn cls :: jsstring
    by simp
qed auto

text \<open>
  What the language says of the regular expression \<open>D(.*?)D\<close> on a string: it matches
  behind \<open>pre\<close> with the group \<open>cap\<close> when the delimiter, \<open>cap\<close> and the delimiter stand
  there and \<open>cap\<close> holds no line terminator. A global replace takes, again and again, the
  match the scan meets first: the leftmost one, and at that place, the group being lazy,
  the one with the shortest group.
\<close>

definition matches :: "jsstring \<Rightarrow> jsstring \<Rightarrow> jsstring \<Rightarrow> jsstring \<Rightarrow> jsstring \<Rightarrow> bool" where
  "matches d s pre cap rest \<longleftrightarrow> s = pre @ d @ cap @ d @ rest \<and> \<not> list_ex line_terminator cap"

definition first_match :: "jsstring \<Rightarrow> jsstring \<Rightarrow> jsstring \<Rightarrow> jsstring \<Rightarrow> jsstring \<Rightarrow> bool" where
  "first_match d s pre cap rest \<longleftrightarrow>
     matches d s pre cap rest \<and>
     (\<forall>pre' cap' rest'. matches d s pre' cap' rest' \<longrightarrow>
        length pre \<le> length pre' \<and> (length pre' = length pre \<longrightarrow> length cap \<le> length cap'))"

text \<open>\<open>.replace(/^- /gm, '\<bullet> ')\<close>; the flag says whether the scan stands at a line start.\<close>

fun replace_bullets :: "bool \<Rightarrow> jsstring \<Rightarrow> jsstring" where
  "replace_bullets b [] = []"
| "replace_bullets b [c] = [c]"
| "replace_bullets b (c # c' # cs) =
     (if b \<and> c = 0x2D \<and> c' = 0x20 then 0x2022 # 0x20 # replace_bullets False cs
      else c # replace_bullets (line_terminator c) (c' # cs))"

text \<open>\<open>.replace(/\n/g, '<br>')\<close>\<close>

definition replace_newlines :: "jsstring \<Rightarrow> jsstring" where
  "replace_newlines s = concat (map (\<lambda>c. if c = 0x0A then ascii ''<br>'' else [c]) s)"

text \<open>\<open>.replace(/\*\*(.*?)\*\*/g, '<strong>$1</strong>')\<close>\<close>

definition replace_strong :: "jsstring \<Rightarrow> jsstring" where
  "replace_strong = replace_delimited (ascii ''**'') (ascii ''<strong>'') (ascii ''</strong>'')"

text \<open>\<open>.replace(/\*(.*?)\*/g, '<em>$1</em>')\<close>\<close>

definition replace_em :: "jsstring \<Rightarrow> jsstring" where
  "replace_em = replace_delimited (ascii ''*'') (ascii ''<em>'') (ascii ''</em>'')"

text \<open>The chain of the four replacements, applied to what \<open>safeText\<close> holds.\<close>

definition formattedText :: "jsstring \<Rightarrow> jsstring" where
  "formattedText safe =
     replace_newlines (replace_bullets True (replace_em (replace_strong safe)))"

text \<open>
  The markup the formatter itself writes. A string is safe markup when every \<open><\<close> and
  every \<open>>\<close> in it belongs to one of these tags.
\<close>

definition inserted_tags :: "jsstring list" where
  "inserted_tags =
     [ascii ''<strong>'', ascii ''</strong>'', ascii ''<em>'', ascii ''</em>'', ascii ''<br>'']"

inductive safe_markup :: "jsstring \<Rightarrow> bool" where
  Nil: "safe_markup []"
| Unit: "c \<noteq> 0x3C \<Longrightarrow> c \<noteq> 0x3E \<Longrightarrow> safe_markup s \<Longrightarrow> safe_markup (c # s)"
| Tag: "t \<in> set inserted_tags \<Longrightarrow> safe_markup s \<Longrightarrow> safe_markup (t @ s)"

section \<open>The page and the state of the script\<close>

text \<open>
  The page's markup is not part of the script. What the script needs of it is the class
  names of its elements, as a tree: \<open>document.querySelector('.suggestion-bubbles')\<close>
  walks it in document order. Only whether \<open>suggestion-bubbles\<close> is among the class
  names of an element is ever read.
\<close>

datatype html = Elem (classes: "string list") (kids: "html list")

text \<open>
  The \<open>type\<close> argument of \<open>addMessage\<close>, and the \<open>className\<close> of an element the
  script appends to the chat box: \<open>message user\<close>, \<open>message bot\<close>, \<open>message medical\<close>,
  or \<open>message bot thinking-message\<close>.
\<close>

datatype msg_type = User | Bot | Medical

datatype turn_class = Message msg_type | ThinkingMessage

text \<open>
  What an appended element holds: child \<open>div\<close>s, each with its class name and the markup
  assigned to its \<open>innerHTML\<close> (for a child built node by node, the markup of what was
  built), and markup added to the element itself. The markup is kept as the string the
  script hands to the browser.
\<close>

datatype part = Div string (markup: jsstring) | Markup (markup: jsstring)

text \<open>
  A child element of the chat box: an element the script created, with its identity
  (\<open>thinkingMessage\<close> refers to one), or an element of the page.
\<close>

datatype node = Turn (eid: nat) (className: turn_class) (parts: "part list") | Static html

text \<open>
  The variables of the closure and the parts of the document the handlers read and write.
  \<open>pending\<close> holds the messages of the requests that \<open>fetch\<close> has sent and that have
  not settled yet; \<open>console\<close> is what \<open>console.error\<close> has logged. Heights and scroll
  offsets depend on layout and are left out.

  The markup of a user or bot turn and of the thinking indicator is the script's own and
  what the formatter wrote, whose tags carry no attribute: no element of such a turn has
  a class of the page. A medical turn is different: \<open>addMedicalResponse\<close> assigns the
  server's strings to \<open>innerHTML\<close> as they are, and the browser builds elements from
  them. \<open>parser\<close> is that part of the browser: the elements it builds from a string of
  markup; \<open>injected\<close> holds, for the identity of a turn, the elements built from the raw
  markup of that turn that are still in the document (the first entry for an identity
  counts; a turn without an entry holds none).
\<close>

record state =
  chatBox :: "node list"
  page_before :: "html list"
  page_after :: "html list"
  parser :: "jsstring \<Rightarrow> html list"
  injected :: "(nat \<times> html list) list"
  userInput_value :: jsstring
  userInput_focused :: bool
  sendBtn_disabled :: bool
  isProcessing :: bool
  thinkingMessage :: "nat option"
  next_eid :: nat
  pending :: "jsstring list"
  console :: "js_error list"

subsection \<open>The input handler (lines 9 to 19)\<close>

definition input_handler :: "state \<Rightarrow> state" where
  "input_handler s = s\<lparr>sendBtn_disabled := (length (trim (userInput_value s)) = 0)\<rparr>"

subsection \<open>The suggestion bubbles\<close>

text \<open>
  \<open>document.querySelector('.suggestion-bubbles')\<close> followed by \<open>remove()\<close>: the first
  element of that class in document order leaves its parent, with everything below it.
  \<open>None\<close> means that the forest has no such element.
\<close>

fun remove_first :: "html list \<Rightarrow> html list option" where
  "remove_first [] = None"
| "remove_first (Elem cs ks # rest) =
     (if ''suggestion-bubbles'' \<in> set cs then Some rest
      else case remove_first ks of
             Some ks' \<Rightarrow> Some (Elem cs ks' # rest)
           | None \<Rightarrow> map_option ((#) (Elem cs ks)) (remove_first rest))"

text \<open>
  The same over the children of the chat box, in order: inside a turn the search goes
  through the elements built from its raw markup, inside an element of the page through
  that element.
\<close>

definition built_in :: "(nat \<times> html list) list \<Rightarrow> nat \<Rightarrow> html list" where
  "built_in built i = (case map_of built i of None \<Rightarrow> [] | Some els \<Rightarrow> els)"

fun remove_first_node ::
  "(nat \<times> html list) list \<Rightarrow> node list \<Rightarrow> (node list \<times> (nat \<times> html list) list) option" where
  "remove_first_node built [] = None"
| "remove_first_node built (Turn i c ps # rest) =
     (case remove_first (built_in built i) of
        Some els \<Rightarrow> Some (Turn i c ps # rest, (i, els) # built)
      | None \<Rightarrow>
          map_option (\<lambda>(ns, built'). (Turn i c ps # ns, built')) (remove_first_node built rest))"
| "remove_first_node built (Static h # rest) =
     (case remove_first [h] of
        Some hs \<Rightarrow> Some (map Static hs @ rest, built)
      | None \<Rightarrow>
          map_option (\<lambda>(ns, built'). (Static h # ns, built')) (remove_first_node built rest))"

text \<open>
  The page in document order: what stands before the chat box, the chat box, what stands
  behind it. (The chat box itself is taken not to lie inside suggestion bubbles.)
\<close>

definition querySelector_suggestions :: "state \<Rightarrow> bool" where
  "querySelector_suggestions s \<longleftrightarrow>
     remove_first (page_before s) \<noteq> None \<or>
     remove_first_node (injected s) (chatBox s) \<noteq> None \<or>
     remove_first (page_after s) \<noteq> None"

definition suggestions_remove :: "state \<Rightarrow> state" where
  "suggestions_remove s =
     (case remove_first (page_before s) of
        Some b \<Rightarrow> s\<lparr>page_before := b\<rparr>
      | None \<Rightarrow>
          (case remove_first_node (injected s) (chatBox s) of
             Some (c, built) \<Rightarrow> s\<lparr>chatBox := c, injected := built\<rparr>
           | None \<Rightarrow>
               (case remove_first (page_after s) of
                  Some a \<Rightarrow> s\<lparr>page_after := a\<rparr>
                | None \<Rightarrow> s)))"

subsection \<open>\<open>scrollToBottom\<close> (lines 95 to 97)\<close>

definition scrollToBottom :: "state \<Rightarrow> state" where
  "scrollToBottom s = s"

subsection \<open>\<open>addMessage\<close> (lines 100 to 152)\<close>

definition message_header :: "string \<Rightarrow> string \<Rightarrow> part" where
  \<open>message_header icon title =
     Div ''message-header''
       (ascii ''<div class="message-icon"><i class="fas '' @ ascii icon @ ascii ''"></i></div>'' @
        ascii ''<div class="message-title">'' @ ascii title @ ascii ''</div>'')\<close>

text \<open>
  The element is built detached and appended at line 142. The one statement before that
  which can throw is the assignment of \<open>text\<close> to \<open>textContent\<close>; the document is then as
  it was, and the result is the error alone.
\<close>

definition addMessage :: "state \<Rightarrow> jsval \<Rightarrow> msg_type \<Rightarrow> js_error + state" where
  "addMessage s text type =
     (let header = (if type = Bot \<or> type = Medical
                    then [message_header ''fa-user-md'' ''MediChat Assistant''] else []) in
      case (if type = Medical then Inr []
            else (case textContent text of
                    Inl e \<Rightarrow> Inl e
                  | Inr content \<Rightarrow> Inr [Markup (formattedText (safeText content))])) of
        Inl e \<Rightarrow> Inl e
      | Inr formatted \<Rightarrow>
          (let msgDiv = Turn (next_eid s) (Message type) (header @ formatted);
               s1 = s\<lparr>chatBox := chatBox s @ [msgDiv], next_eid := Suc (next_eid s)\<rparr>;
               s2 = (if querySelector_suggestions s1 \<and> length (chatBox s1) > 1
                     then suggestions_remove s1 else s1)
           in Inr (scrollToBottom s2)))"

subsection \<open>\<open>addMedicalResponse\<close> (lines 155 to 226)\<close>

text \<open>A line break of a template literal and the indentation of the line after it.\<close>

definition lf :: "nat \<Rightarrow> jsstring" where
  "lf n = 0x0A # replicate n 0x20"

text \<open>\<open>symptom.replace(/_/g, ' ')\<close>\<close>

definition replace_underscores :: "jsstring \<Rightarrow> jsstring" where
  "replace_underscores symptom = map (\<lambda>c. if c = 0x5F then 0x20 else c) symptom"

definition symptom_tag :: "jsstring \<Rightarrow> jsstring" where
  \<open>symptom_tag symptom =
     ascii ''<span class="symptom-tag">'' @ replace_underscores symptom @ ascii ''</span>''\<close>

text \<open>
  \<open>data.symptoms.map(symptom => ...)\<close>: only an array has \<open>map\<close>, and only a string
  has \<open>replace\<close>; a value parsed from JSON carries no function, so every other case is
  a call of something that is not a function (or a property read of \<open>null\<close> or
  \<open>undefined\<close>), a \<open>TypeError\<close>.
\<close>

fun symptom_tags :: "jsval list \<Rightarrow> js_error + jsstring list" where
  "symptom_tags [] = Inr []"
| "symptom_tags (Str symptom # xs) =
     (case symptom_tags xs of Inl e \<Rightarrow> Inl e | Inr ts \<Rightarrow> Inr (symptom_tag symptom # ts))"
| "symptom_tags (x # xs) = Inl TypeError"

fun symptoms_map :: "jsval \<Rightarrow> js_error + jsstring list" where
  "symptoms_map (Arr xs) = symptom_tags xs"
| "symptoms_map v = Inl TypeError"

text \<open>\<open>data.symptoms.length\<close>, read once \<open>data.symptoms.map\<close> has gone through.\<close>

fun array_length :: "jsval \<Rightarrow> nat" where
  "array_length (Arr xs) = length xs"
| "array_length v = 0"

definition symptomsSection :: "jsstring list \<Rightarrow> part" where
  \<open>symptomsSection tags =
     Div []
       (lf 20 @ ascii ''<strong>Reported symptoms:</strong>'' @
        lf 20 @ ascii ''<div class="symptom-list">'' @
        lf 24 @ concat tags @
        lf 20 @ ascii ''</div>'' @
        lf 16)\<close>

definition conditionSection :: "jsstring \<Rightarrow> part" where
  "conditionSection disease =
     Div ''medical-content''
       (lf 20 @ ascii ''<strong>Possible condition:</strong> '' @ disease @
        lf 16)"

definition disclaimer :: part where
  "disclaimer =
     Div ''medical-disclaimer''
       (lf 20 @ ascii ''<strong>Important:</strong> This is not a medical diagnosis. '' @
        lf 20 @ ascii ''Consult a healthcare professional for accurate assessment.'' @
        lf 16)"

definition footer :: "nat \<Rightarrow> part" where
  \<open>footer n =
     Div ''response-footer''
       (lf 20 @ ascii ''<span>AI-Powered Analysis</span>'' @
        lf 20 @ ascii ''<div class="response-source">'' @
        lf 24 @ ascii ''<i class="fas fa-database"></i> Medical Knowledge Base'' @
        lf 20 @ ascii ''</div>'' @
        lf 20 @ ascii ''<div class="chat-stats">'' @
        lf 24 @ ascii ''<span class="stat-item"><i class="fas fa-symptom"></i> '' @
          decimal n @ ascii '' symptoms</span>'' @
        lf 20 @ ascii ''</div>'' @
        lf 16)\<close>

definition category :: part where
  \<open>category =
     Div ''medical-category'' (ascii ''<i class="fas fa-diagnoses"></i> Medical Assessment'')\<close>

text \<open>
  The element is built detached and appended last, so an exception on the way (from
  \<open>data.symptoms.map\<close>, or from the conversion of \<open>data.disease\<close> to a string) leaves
  the document as it was: the result is then the error alone. The two sections that hold
  strings of the server go through the browser's parser as they are; the other sections
  are the script's own markup.
\<close>

definition addMedicalResponse :: "state \<Rightarrow> jsval \<Rightarrow> js_error + state" where
  "addMedicalResponse s data =
     (case get_prop data (ascii ''symptoms'') of
        Inl e \<Rightarrow> Inl e
      | Inr symptoms \<Rightarrow>
          (case symptoms_map symptoms of
             Inl e \<Rightarrow> Inl e
           | Inr tags \<Rightarrow>
               (case get_prop data (ascii ''disease'') of
                  Inl e \<Rightarrow> Inl e
                | Inr disease \<Rightarrow>
                    (case ToString disease of
                       Inl e \<Rightarrow> Inl e
                     | Inr condition \<Rightarrow>
                         (let msgDiv = Turn (next_eid s) (Message Medical)
                                [message_header ''fa-stethoscope'' ''Symptom Analysis'',
                                 category,
                                 symptomsSection tags,
                                 conditionSection condition,
                                 disclaimer,
                                 footer (array_length symptoms)];
                              built = parser s (markup (symptomsSection tags)) @
                                      parser s (markup (conditionSection condition))
                          in Inr (s\<lparr>chatBox := chatBox s @ [msgDiv],
                                    injected := (next_eid s, built) # injected s,
                                    next_eid := Suc (next_eid s)\<rparr>))))))"

subsection \<open>The thinking indicator (lines 229 to 289)\<close>

text \<open>\<open>thinkingMessage.remove()\<close>: the element of that identity leaves the chat box.\<close>

fun is_turn :: "nat \<Rightarrow> node \<Rightarrow> bool" where
  "is_turn i (Turn j c ps) = (i = j)"
| "is_turn i (Static h) = False"

definition remove_turn :: "nat \<Rightarrow> state \<Rightarrow> state" where
  "remove_turn i s = s\<lparr>chatBox := filter (\<lambda>n. \<not> is_turn i n) (chatBox s)\<rparr>"

definition thinking_parts :: "part list" where
  \<open>thinking_parts =
     [message_header ''fa-user-md'' ''MediChat Assistant'',
      Div ''thinking''
        (ascii ''<div class="thinking-dots">'' @
         concat (replicate 3 (ascii ''<span class="thinking-dot"></span>'')) @
         ascii ''</div>'')]\<close>

text \<open>The element the function returns is not used by any caller; the model returns the state.\<close>

definition showThinkingIndicator :: "state \<Rightarrow> state" where
  "showThinkingIndicator s =
     (let s1 = (case thinkingMessage s of
                  Some i \<Rightarrow> (remove_turn i s)\<lparr>thinkingMessage := None\<rparr>
                | None \<Rightarrow> s);
          msgDiv = Turn (next_eid s1) ThinkingMessage thinking_parts;
          s2 = s1\<lparr>chatBox := chatBox s1 @ [msgDiv], next_eid := Suc (next_eid s1),
                  thinkingMessage := Some (next_eid s1)\<rparr>
      in scrollToBottom s2)"

definition hideThinkingIndicator :: "state \<Rightarrow> state" where
  "hideThinkingIndicator s =
     (case thinkingMessage s of
        Some i \<Rightarrow> (remove_turn i s)\<lparr>thinkingMessage := None\<rparr>
      | None \<Rightarrow> s)"

subsection \<open>\<open>sendMessage\<close> (lines 30 to 92)\<close>

text \<open>
  What \<open>fetch\<close> can come back with: a rejection, or a response with its status and,
  where the body is JSON, the value \<open>response.json()\<close> parses from it.
\<close>

datatype response = Response (ok: bool) (json: "jsval option")

datatype outcome = Rejected | Resolved response

text \<open>
  An exception inside a handler ends the handler where it is thrown. (The message is a
  string, so \<open>addMessage\<close> does not throw here.)
\<close>

definition sendMessage :: "state \<Rightarrow> state" where
  "sendMessage s =
     (let message = trim (userInput_value s) in
      if message = [] \<or> isProcessing s then s
      else
        (let s1 = s\<lparr>isProcessing := True, sendBtn_disabled := True\<rparr> in
         case addMessage s1 (Str message) User of
           Inl e \<Rightarrow> s1
         | Inr s2 \<Rightarrow>
             (let s3 = s2\<lparr>userInput_value := []\<rparr>;
                  s4 = showThinkingIndicator s3
              in s4\<lparr>pending := pending s4 @ [message]\<rparr>)))"

text \<open>The first \<open>then\<close> (lines 54 to 59).\<close>

definition on_response :: "response \<Rightarrow> js_error + jsval" where
  "on_response r =
     (if \<not> ok r then Inl ResponseNotOk
      else case json r of None \<Rightarrow> Inl JsonSyntaxError | Some data \<Rightarrow> Inr data)"

definition reset_processing :: "state \<Rightarrow> state" where
  "reset_processing s =
     s\<lparr>isProcessing := False, sendBtn_disabled := False, userInput_focused := True\<rparr>"

text \<open>
  The second \<open>then\<close> (lines 60 to 78). An exception leaves the handler with what was
  done before it: the result is then the error and the state at the throw.
\<close>

definition on_data :: "state \<Rightarrow> jsval \<Rightarrow> js_error \<times> state + state" where
  "on_data s data =
     (let s1 = hideThinkingIndicator s in
      case get_prop data (ascii ''mode'') of
        Inl e \<Rightarrow> Inl (e, s1)
      | Inr mode \<Rightarrow>
          if mode = Str (ascii ''medical'') then
            (case addMedicalResponse s1 data of
               Inl e \<Rightarrow> Inl (e, s1)
             | Inr s2 \<Rightarrow> Inr (reset_processing (scrollToBottom s2)))
          else
            (case get_prop data (ascii ''response'') of
               Inl e \<Rightarrow> Inl (e, s1)
             | Inr response \<Rightarrow>
                 (case addMessage s1 response Bot of
                    Inl e \<Rightarrow> Inl (e, s1)
                  | Inr s2 \<Rightarrow> Inr (reset_processing (scrollToBottom s2)))))"

text \<open>The \<open>catch\<close> (lines 79 to 91).\<close>

definition apology :: jsstring where
  "apology =
     0x274C # ascii '' Oops! I couldn'' @ [0x27] @
     ascii ''t process your request. Please check your internet connection and try again.''"

definition on_error :: "state \<Rightarrow> js_error \<Rightarrow> state" where
  "on_error s error =
     (let s1 = hideThinkingIndicator s in
      case addMessage s1 (Str apology) Bot of
        Inl e \<Rightarrow> s1
      | Inr s2 \<Rightarrow>
          (let s3 = s2\<lparr>console := console s2 @ [error]\<rparr>
           in reset_processing s3))"

text \<open>The request settles: the chain of the three handlers runs on its outcome.\<close>

definition settle :: "state \<Rightarrow> outcome \<Rightarrow> state" where
  "settle s out =
     (let s0 = s\<lparr>pending := tl (pending s)\<rparr> in
      case out of
        Rejected \<Rightarrow> on_error s0 FetchRejected
      | Resolved r \<Rightarrow>
          (case on_response r of
             Inl e \<Rightarrow> on_error s0 e
           | Inr data \<Rightarrow>
               (case on_data s0 data of
                  Inl (e, s1) \<Rightarrow> on_error s1 e
                | Inr s1 \<Rightarrow> s1)))"

subsection \<open>The other handlers (lines 292 to 308)\<close>

definition useSuggestion :: "state \<Rightarrow> jsstring \<Rightarrow> state" where
  "useSuggestion s text =
     sendMessage (s\<lparr>userInput_value := text, sendBtn_disabled := False,
                    userInput_focused := True\<rparr>)"

definition keypress_handler :: "state \<Rightarrow> string \<Rightarrow> bool \<Rightarrow> state" where
  "keypress_handler s key shiftKey =
     (if key = ''Enter'' \<and> \<not> shiftKey then sendMessage s else s)"

subsection \<open>The events of a session\<close>

text \<open>
  The user edits the input field to a new value (the \<open>input\<close> listener runs), clicks the
  send button (a disabled button dispatches no click), presses a key in the input field,
  picks a suggestion; the request in flight settles.
\<close>

datatype event =
    Input jsstring
  | Click
  | KeyPress string bool
  | Suggestion jsstring
  | Settle outcome

fun step :: "state \<Rightarrow> event \<Rightarrow> state" where
  "step s (Input v) = input_handler (s\<lparr>userInput_value := v\<rparr>)"
| "step s Click = (if sendBtn_disabled s then s else sendMessage s)"
| "step s (KeyPress key shiftKey) = keypress_handler s key shiftKey"
| "step s (Suggestion text) = useSuggestion s text"
| "step s (Settle out) = (if pending s = [] then s else settle s out)"

definition run :: "state \<Rightarrow> event list \<Rightarrow> state" where
  "run s evs = foldl step s evs"

text \<open>
  The state when the listeners have been attached (lines 2 to 6): the page as it was
  loaded, no request in flight, no thinking indicator.
\<close>

record page =
  before :: "html list"
  inside :: "html list"
  after :: "html list"
  html_parser :: "jsstring \<Rightarrow> html list"
  input_value :: jsstring
  button_disabled :: bool

definition initial :: "page \<Rightarrow> state" where
  "initial p =
     \<lparr>chatBox = map Static (inside p), page_before = before p, page_after = after p,
      parser = html_parser p, injected = [],
      userInput_value = input_value p, userInput_focused = False,
      sendBtn_disabled = button_disabled p, isProcessing = False, thinkingMessage = None,
      next_eid = 0, pending = [], console = []\<rparr>"

text \<open>
  A page for the examples: an empty chat box, the input field empty and the send button
  disabled, and the suggestion bubbles elsewhere in the document. Its parser builds one
  element of class \<open>suggestion-bubbles\<close> for every occurrence of the markup of an
  empty \<open>div\<close> of that class, and nothing else: what a browser builds, as far as that
  class goes, from the markup of the examples.
\<close>

definition bubbles_markup :: jsstring where
  \<open>bubbles_markup = ascii ''<div class="suggestion-bubbles"></div>''\<close>

fun occurrences :: "jsstring \<Rightarrow> jsstring \<Rightarrow> nat" where
  "occurrences d [] = 0"
| "occurrences d (c # cs) =
     (if starts_with d (c # cs) then 1 else 0) + occurrences d cs"

definition example_parser :: "jsstring \<Rightarrow> html list" where
  "example_parser m = replicate (occurrences bubbles_markup m) (Elem [''suggestion-bubbles''] [])"

definition page_outside :: page where
  "page_outside =
     \<lparr>before = [], inside = [], after = [Elem [''suggestion-bubbles''] []],
      html_parser = example_parser, input_value = [], button_disabled = True\<rparr>"

section \<open>What a session keeps invariant\<close>

text \<open>The elements the script itself has appended to the chat box, in order.\<close>

fun scripted :: "node \<Rightarrow> bool" where
  "scripted (Turn i c ps) = True"
| "scripted (Static h) = False"

definition turns :: "state \<Rightarrow> node list" where
  "turns s = filter scripted (chatBox s)"

text \<open>The thinking placeholders in the view.\<close>

fun is_placeholder :: "node \<Rightarrow> bool" where
  "is_placeholder (Turn i c ps) = (c = ThinkingMessage)"
| "is_placeholder (Static h) = False"

definition placeholders :: "state \<Rightarrow> node list" where
  "placeholders s = filter is_placeholder (chatBox s)"

text \<open>
  The identities of the appended elements are distinct and older than the next one (so
  are the identities \<open>injected\<close> speaks of), and the placeholders in the view are exactly
  what \<open>thinkingMessage\<close> refers to.
\<close>

definition wf_dom :: "state \<Rightarrow> bool" where
  "wf_dom s \<longleftrightarrow>
     list_all (\<lambda>n. eid n < next_eid s) (turns s) \<and>
     list_all (\<lambda>i. i < next_eid s) (map fst (injected s)) \<and>
     distinct (map eid (turns s)) \<and>
     placeholders s =
       (case thinkingMessage s of
          None \<Rightarrow> []
        | Some i \<Rightarrow> [Turn i ThinkingMessage thinking_parts])"

text \<open>The flag is set exactly while a request is in flight, and at most one is.\<close>

definition wf_flight :: "state \<Rightarrow> bool" where
  "wf_flight s \<longleftrightarrow> isProcessing s = (pending s \<noteq> []) \<and> length (pending s) \<le> 1"

text \<open>How many elements of class \<open>suggestion-bubbles\<close> the page holds.\<close>

fun count_html :: "html \<Rightarrow> nat" where
  "count_html (Elem cs ks) =
     (if ''suggestion-bubbles'' \<in> set cs then 1 else 0) + sum_list (map count_html ks)"

fun count_node :: "(nat \<times> html list) list \<Rightarrow> node \<Rightarrow> nat" where
  "count_node built (Turn i c ps) = sum_list (map count_html (built_in built i))"
| "count_node built (Static h) = count_html h"

definition count_suggestions :: "state \<Rightarrow> nat" where
  "count_suggestions s =
     sum_list (map count_html (page_before s)) +
     sum_list (map (count_node (injected s)) (chatBox s)) +
     sum_list (map count_html (page_after s))"

text \<open>The element that \<open>addMessage\<close> appends.\<close>

definition new_message :: "state \<Rightarrow> jsstring \<Rightarrow> msg_type \<Rightarrow> node" where
  "new_message s content type =
     Turn (next_eid s) (Message type)
       ((if type = Bot \<or> type = Medical
         then [message_header ''fa-user-md'' ''MediChat Assistant''] else []) @
        (if type = Medical then [] else [Markup (formattedText (safeText content))]))"


text \<open>
  What \<open>addMessage\<close> does once the text has its string: it appends the element and, when
  the chat box then holds more than one child, removes the suggestion bubbles.
\<close>

definition append_message :: "state \<Rightarrow> jsstring \<Rightarrow> msg_type \<Rightarrow> state" where
  "append_message s content type =
     (let s1 = s\<lparr>chatBox := chatBox s @ [new_message s content type],
                 next_eid := Suc (next_eid s)\<rparr>
      in if querySelector_suggestions s1 \<and> length (chatBox s1) > 1
         then suggestions_remove s1 else s1)"

section \<open>Properties of the formatter\<close>

lemma inserted_tag_shape:
  "t \<in> set inserted_tags \<Longrightarrow> \<exists>t'. t = 0x3C # t'"
  by (auto simp: inserted_tags_def)

lemma inserted_tag_units:
  "t \<in> set inserted_tags \<Longrightarrow> c \<in> set t \<Longrightarrow>
     c \<noteq> 0x2A \<and> c \<noteq> 0x2D \<and> c \<noteq> 0x20 \<and> \<not> line_terminator c"
  by (auto simp: inserted_tags_def line_terminator_def)

lemma safe_markup_append:
  "safe_markup a \<Longrightarrow> safe_markup b \<Longrightarrow> safe_markup (a @ b)"
proof (induction a rule: safe_markup.induct)
  case (Tag t s)
  with safe_markup.Tag [of t "s @ b"] show ?case by simp
qed (auto intro: safe_markup.intros)

lemma safe_markup_tl:
  assumes "safe_markup (c # u)" and "c \<noteq> 0x3C"
  shows "safe_markup u \<and> c \<noteq> 0x3E"
  using assms
proof (cases rule: safe_markup.cases)
  case (Tag t s)
  with inserted_tag_shape [of t] assms(2) show ?thesis by (auto simp: Cons_eq_append_conv)
qed auto

lemma safe_markup_split:
  assumes "safe_markup (a @ c # b)" and "\<forall>t \<in> set inserted_tags. c \<notin> set t"
  shows "safe_markup a \<and> safe_markup (c # b)"
  using assms(1)
proof (induction "a @ c # b" arbitrary: a rule: safe_markup.induct)
  case Nil
  then show ?case by simp
next
  case (Unit x s)
  show ?case
  proof (cases a)
    case Nil
    with Unit show ?thesis by (auto intro: safe_markup.intros)
  next
    case (Cons y a')
    with Unit.hyps(5) have "s = a' @ c # b" "x = y" by auto
    with Unit.hyps(4) [of a'] Unit.hyps(1,2) Cons show ?thesis
      by (auto intro: safe_markup.intros)
  qed
next
  case (Tag t s)
  from Tag.hyps(4) obtain us where
    "(t = a @ us \<and> us @ s = c # b) \<or> (t @ us = a \<and> s = us @ c # b)"
    unfolding append_eq_append_conv2 by blast
  then show ?case
  proof
    assume h: "t = a @ us \<and> us @ s = c # b"
    show ?thesis
    proof (cases us)
      case Nil
      with h Tag.hyps(1,2) safe_markup.Tag [of t "[]"] show ?thesis
        by (auto intro: safe_markup.intros)
    next
      case (Cons u us')
      with h have "c \<in> set t" by auto
      with assms(2) Tag.hyps(1) show ?thesis by blast
    qed
  next
    assume h: "t @ us = a \<and> s = us @ c # b"
    with Tag.hyps(3) [of us] have "safe_markup us \<and> safe_markup (c # b)" by simp
    with h Tag.hyps(1) show ?thesis by (auto intro: safe_markup.Tag)
  qed
qed

lemma find_close_split:
  "find_close d s = Some (cap, rest) \<Longrightarrow> s = cap @ d @ rest"
proof (induction s arbitrary: cap)
  case Nil
  then show ?case by (simp split: if_splits)
next
  case (Cons c cs)
  show ?case
  proof (cases "starts_with d (c # cs)")
    case True
    then have "take (length d) (c # cs) = d"
      by (simp only: starts_with_def)
    then have "c # cs = d @ drop (length d) (c # cs)"
      by (metis append_take_drop_id)
    with True Cons.prems show ?thesis by auto
  next
    case False
    with Cons.prems obtain cap' where
      "find_close d cs = Some (cap', rest)" "cap = c # cap'"
      by (auto split: if_splits)
    with Cons.IH [of cap'] show ?thesis by simp
  qed
qed

lemma replace_delimited_copy:
  assumes "d \<noteq> [] \<longrightarrow> hd d \<notin> set t"
  shows "replace_delimited d opn cls (t @ s) = t @ replace_delimited d opn cls s"
  using assms
proof (induction t)
  case Nil
  show ?case by simp
next
  case (Cons x t)
  then have "\<not> (d \<noteq> [] \<and> starts_with d (x # t @ s))"
    by (cases d) (auto simp: starts_with_def)
  with Cons show ?case by auto
qed

lemma safe_markup_drop_stars:
  "safe_markup (d @ u) \<Longrightarrow> set d \<subseteq> {0x2A} \<Longrightarrow> safe_markup u"
proof (induction d)
  case (Cons x d)
  then have "x = 0x2A" by simp
  with Cons.prems(1) safe_markup_tl [of x "d @ u"] have "safe_markup (d @ u)" by simp
  with Cons show ?case by auto
qed simp

lemma safe_markup_replace_delimited:
  assumes "set d \<subseteq> {0x2A}" and "opn \<in> set inserted_tags" and "cls \<in> set inserted_tags"
  shows "safe_markup s \<Longrightarrow> safe_markup (replace_delimited d opn cls s)"
proof (induction s rule: length_induct)
  case (1 s)
  note IH = "1.IH" [rule_format]
  from "1.prems" show ?case
  proof (cases rule: safe_markup.cases)
    case Nil
    then show ?thesis by (simp add: safe_markup.Nil)
  next
    case (Tag t s')
    with inserted_tag_shape [of t] have len: "length s' < length s" by auto
    from Tag inserted_tag_units [of t] assms(1) have "d \<noteq> [] \<longrightarrow> hd d \<notin> set t"
      by (cases d) auto
    then have "replace_delimited d opn cls (t @ s') = t @ replace_delimited d opn cls s'"
      by (rule replace_delimited_copy)
    with Tag IH [OF len] show ?thesis by (auto intro: safe_markup.Tag)
  next
    case (Unit x s')
    have copy: "safe_markup (x # replace_delimited d opn cls s')"
      using Unit IH [of s'] by (auto intro: safe_markup.Unit)
    show ?thesis
    proof (cases "d \<noteq> [] \<and> starts_with d (x # s')")
      case False
      with Unit copy show ?thesis by auto
    next
      case True
      show ?thesis
      proof (cases "find_close d (drop (length d) (x # s'))")
        case None
        with True Unit copy show ?thesis by simp
      next
        case (Some p)
        obtain cap rest where p: "p = (cap, rest)" by (cases p)
        from True have s: "s = d @ drop (length d) s"
          unfolding starts_with_def Unit(1) by (metis append_take_drop_id)
        from Some p Unit(1) have dr: "drop (length d) s = cap @ d @ rest"
          using find_close_split by simp
        from True obtain d' where d: "d = 0x2A # d'" using assms(1) by (cases d) auto
        from s "1.prems" assms(1) have "safe_markup (drop (length d) s)"
          using safe_markup_drop_stars [of d "drop (length d) s"] by simp
        with dr d have "safe_markup (cap @ 0x2A # d' @ rest)" by simp
        then have "safe_markup cap \<and> safe_markup (0x2A # d' @ rest)"
          using inserted_tag_units by (intro safe_markup_split) blast+
        with d assms(1) have cap: "safe_markup cap" and "safe_markup rest"
          using safe_markup_drop_stars [of d rest] by auto
        moreover have "length (drop (length d) s) \<le> length s" by simp
        with dr d have "length rest < length s" by simp
        ultimately have "safe_markup (replace_delimited d opn cls rest)" using IH by blast
        with cap assms(2,3) have "safe_markup (opn @ cap @ cls @ replace_delimited d opn cls rest)"
          by (intro safe_markup.Tag safe_markup_append)
        with True Some p Unit show ?thesis by simp
      qed
    qed
  qed
qed

lemma replace_bullets_copy:
  assumes "t \<noteq> []" and "\<forall>c \<in> set t. c \<noteq> 0x2D \<and> \<not> line_terminator c"
  shows "replace_bullets b (t @ s) = t @ replace_bullets False s"
  using assms
proof (induction t arbitrary: b)
  case Nil
  then show ?case by simp
next
  case (Cons x t)
  show ?case
  proof (cases t)
    case Nil
    with Cons.prems show ?thesis by (cases s) auto
  next
    case (Cons y t')
    with Cons.prems Cons.IH [of "line_terminator x"] show ?thesis by auto
  qed
qed

lemma safe_markup_replace_bullets:
  "safe_markup s \<Longrightarrow> safe_markup (replace_bullets b s)"
proof (induction s arbitrary: b rule: length_induct)
  case (1 s)
  note IH = "1.IH" [rule_format]
  from "1.prems" show ?case
  proof (cases rule: safe_markup.cases)
    case Nil
    then show ?thesis by (simp add: safe_markup.Nil)
  next
    case (Tag t s')
    with inserted_tag_shape [of t] have len: "length s' < length s" and "t \<noteq> []" by auto
    with Tag inserted_tag_units [of t]
    have "replace_bullets b (t @ s') = t @ replace_bullets False s'"
      by (intro replace_bullets_copy) auto
    with Tag IH [OF len] show ?thesis by (auto intro: safe_markup.Tag)
  next
    case (Unit x s')
    show ?thesis
    proof (cases s')
      case Nil
      with Unit show ?thesis by (auto intro: safe_markup.intros)
    next
      case (Cons y ys)
      show ?thesis
      proof (cases "b \<and> x = 0x2D \<and> y = 0x20")
        case True
        with Unit Cons safe_markup_tl [of y ys] have "safe_markup ys" by simp
        with IH [of ys False] Unit Cons have "safe_markup (replace_bullets False ys)" by simp
        then have "safe_markup (0x2022 # 0x20 # replace_bullets False ys)"
          by (intro safe_markup.Unit) auto
        with True Unit Cons show ?thesis by simp
      next
        case False
        from IH [of s' "line_terminator x"] Unit
        have "safe_markup (x # replace_bullets (line_terminator x) s')"
          by (auto intro: safe_markup.Unit)
        with False Unit Cons show ?thesis by auto
      qed
    qed
  qed
qed

lemma replace_newlines_append:
  "replace_newlines (a @ b) = replace_newlines a @ replace_newlines b"
  by (simp add: replace_newlines_def)

lemma replace_newlines_tag:
  "t \<in> set inserted_tags \<Longrightarrow> replace_newlines t = t"
  by (auto simp: inserted_tags_def replace_newlines_def)

lemma safe_markup_replace_newlines:
  "safe_markup s \<Longrightarrow> safe_markup (replace_newlines s)"
proof (induction s rule: safe_markup.induct)
  case Nil
  show ?case by (simp add: replace_newlines_def safe_markup.Nil)
next
  case (Unit c s)
  have "replace_newlines (c # s) = replace_newlines [c] @ replace_newlines s"
    using replace_newlines_append [of "[c]" s] by simp
  moreover have "safe_markup (replace_newlines [c] @ replace_newlines s)"
  proof (cases "c = 0x0A")
    case True
    then have "replace_newlines [c] = ascii ''<br>''" by (simp add: replace_newlines_def)
    with Unit.IH safe_markup.Tag [of "ascii ''<br>''" "replace_newlines s"] show ?thesis
      by (simp add: inserted_tags_def)
  next
    case False
    with Unit show ?thesis by (simp add: replace_newlines_def safe_markup.Unit)
  qed
  ultimately show ?case by simp
next
  case (Tag t s)
  then show ?case
    by (simp add: replace_newlines_append replace_newlines_tag safe_markup.Tag)
qed

lemma safe_markup_escape_unit: "safe_markup (escape_unit c)"
  by (auto simp: escape_unit_def intro!: safe_markup.Unit safe_markup.Nil)

lemma safe_markup_safeText: "safe_markup (safeText content)"
proof -
  have "safe_markup (concat (map escape_unit s))" for s
    by (induction s) (auto intro: safe_markup.Nil safe_markup_append safe_markup_escape_unit)
  then show ?thesis by (simp add: safeText_def)
qed

lemma safeText_no_angle:
  "0x3C \<notin> set (safeText content) \<and> 0x3E \<notin> set (safeText content)"
  by (auto simp: safeText_def escape_unit_def split: if_splits)

lemma safe_markup_formattedText: "safe_markup safe \<Longrightarrow> safe_markup (formattedText safe)"
  unfolding formattedText_def replace_strong_def replace_em_def
  by (intro safe_markup_replace_newlines safe_markup_replace_bullets
        safe_markup_replace_delimited)
     (simp_all add: inserted_tags_def)

text \<open>\<open>find_close\<close> finds the lazy group exactly when there is one, and finds the shortest.\<close>

lemma find_close_sound:
  "find_close d t = Some (cap, r) \<Longrightarrow>
     t = cap @ d @ r \<and> \<not> list_ex line_terminator cap \<and>
     (\<forall>cap' r'. t = cap' @ d @ r' \<longrightarrow> length cap \<le> length cap')"
proof (induction t arbitrary: cap)
  case Nil
  then show ?case by (simp split: if_splits)
next
  case (Cons c cs)
  show ?case
  proof (cases "starts_with d (c # cs)")
    case True
    then have "take (length d) (c # cs) = d"
      by (simp only: starts_with_def)
    then have "c # cs = d @ drop (length d) (c # cs)"
      by (metis append_take_drop_id)
    with True Cons.prems show ?thesis by auto
  next
    case False
    with Cons.prems obtain cap0 where
      f: "find_close d cs = Some (cap0, r)" and cap: "cap = c # cap0" and c: "\<not> line_terminator c"
      by (auto split: if_splits)
    note IH = Cons.IH [OF f]
    have "length cap \<le> length cap'" if t: "c # cs = cap' @ d @ r'" for cap' r'
    proof (cases cap')
      case Nil
      with t have "starts_with d (c # cs)" by (simp add: starts_with_def)
      with False show ?thesis by simp
    next
      case (Cons x cap'')
      with t have "cs = cap'' @ d @ r'" by simp
      with IH have "length cap0 \<le> length cap''" by blast
      with cap Cons show ?thesis by simp
    qed
    with IH cap c show ?thesis by simp
  qed
qed

lemma find_close_complete:
  "t = cap @ d @ r \<Longrightarrow> \<not> list_ex line_terminator cap \<Longrightarrow> find_close d t \<noteq> None"
proof (induction cap arbitrary: t)
  case Nil
  then have sw: "starts_with d t" by (simp add: starts_with_def)
  show ?case
  proof (cases t)
    case Nil
    with \<open>t = [] @ d @ r\<close> show ?thesis by simp
  next
    case (Cons a l)
    with sw show ?thesis by simp
  qed
next
  case (Cons c cap)
  then obtain cs where t: "t = c # cs" "cs = cap @ d @ r" by simp
  from Cons.prems(2) have "\<not> line_terminator c" "\<not> list_ex line_terminator cap" by simp_all
  with Cons.IH [OF t(2)] t show ?case by auto
qed

text \<open>
  The global replace of \<open>D(.*?)D\<close>: a string without a match is left as it is; in any
  other string the first match is replaced and the replace goes on behind it.
\<close>

lemma replace_delimited_no_match:
  assumes "d \<noteq> []" and "\<forall>pre cap rest. \<not> matches d s pre cap rest"
  shows "replace_delimited d opn cls s = s"
  using assms(2)
proof (induction s)
  case Nil
  show ?case by simp
next
  case (Cons x xs)
  have "\<not> matches d xs pre cap rest" for pre cap rest
  proof
    assume "matches d xs pre cap rest"
    then have "matches d (x # xs) (x # pre) cap rest" by (simp add: matches_def)
    with Cons.prems show False by blast
  qed
  with Cons.IH have tl: "replace_delimited d opn cls xs = xs" by blast
  show ?case
  proof (cases "starts_with d (x # xs)")
    case False
    with tl show ?thesis by simp
  next
    case True
    then have "take (length d) (x # xs) = d"
      by (simp only: starts_with_def)
    then have split: "x # xs = d @ drop (length d) (x # xs)"
      by (metis append_take_drop_id)
    have "find_close d (drop (length d) (x # xs)) = None"
    proof (rule ccontr)
      assume "find_close d (drop (length d) (x # xs)) \<noteq> None"
      then obtain cap r where "find_close d (drop (length d) (x # xs)) = Some (cap, r)" by auto
      from find_close_sound [OF this]
      have "drop (length d) (x # xs) = cap @ d @ r" "\<not> list_ex line_terminator cap" by simp_all
      with split have "matches d (x # xs) [] cap r"
        unfolding matches_def by (metis append_Nil)
      with Cons.prems show False by blast
    qed
    with tl show ?thesis by simp
  qed
qed

lemma replace_delimited_first_match:
  assumes "d \<noteq> []" and "first_match d s pre cap rest"
  shows "replace_delimited d opn cls s =
           pre @ opn @ cap @ cls @ replace_delimited d opn cls rest"
  using assms(2)
proof (induction pre arbitrary: s)
  case Nil
  then have s: "s = d @ cap @ d @ rest" and lt: "\<not> list_ex line_terminator cap"
    and short: "\<And>cap' rest'. matches d s [] cap' rest' \<Longrightarrow> length cap \<le> length cap'"
    by (auto simp: first_match_def matches_def)
  from assms(1) s obtain x xs where xs: "s = x # xs" by (cases d) auto
  from s have sw: "starts_with d s" and dr: "drop (length d) s = cap @ d @ rest"
    by (simp_all add: starts_with_def)
  from find_close_complete [OF dr lt] obtain cap0 r0 where
    f: "find_close d (drop (length d) s) = Some (cap0, r0)" by auto
  from find_close_sound [OF f] dr
  have c0: "cap @ d @ rest = cap0 @ d @ r0" "\<not> list_ex line_terminator cap0"
    "length cap0 \<le> length cap" by auto
  with s have "matches d s [] cap0 r0" by (simp add: matches_def)
  from short [OF this] c0(3) have "length cap0 = length cap" by simp
  with c0(1) have "cap0 = cap" "r0 = rest" by auto
  with f sw assms(1) show ?case unfolding xs by simp
next
  case (Cons x pre)
  then have s: "s = x # (pre @ d @ cap @ d @ rest)" and lt: "\<not> list_ex line_terminator cap"
    and least: "\<And>pre' cap' rest'. matches d s pre' cap' rest' \<Longrightarrow>
      length (x # pre) \<le> length pre' \<and>
      (length pre' = length (x # pre) \<longrightarrow> length cap \<le> length cap')"
    by (auto simp: first_match_def matches_def)
  let ?xs = "pre @ d @ cap @ d @ rest"
  have "first_match d ?xs pre cap rest"
    unfolding first_match_def
  proof (intro conjI allI impI)
    show "matches d ?xs pre cap rest" using lt by (simp add: matches_def)
  next
    fix pre' cap' rest'
    assume "matches d ?xs pre' cap' rest'"
    then have "matches d s (x # pre') cap' rest'" using s by (simp add: matches_def)
    from least [OF this] show "length pre \<le> length pre'" by simp
  next
    fix pre' cap' rest'
    assume "matches d ?xs pre' cap' rest'" and "length pre' = length pre"
    then have "matches d s (x # pre') cap' rest'" and "length (x # pre') = length (x # pre)"
      using s by (simp_all add: matches_def)
    with least show "length cap \<le> length cap'" by blast
  qed
  from Cons.IH [OF this]
  have tl: "replace_delimited d opn cls ?xs =
      pre @ opn @ cap @ cls @ replace_delimited d opn cls rest" .
  have "find_close d (drop (length d) s) = None" if sw: "starts_with d s"
  proof (rule ccontr)
    assume "find_close d (drop (length d) s) \<noteq> None"
    then obtain cap0 r0 where "find_close d (drop (length d) s) = Some (cap0, r0)" by auto
    from find_close_sound [OF this]
    have "drop (length d) s = cap0 @ d @ r0" "\<not> list_ex line_terminator cap0" by simp_all
    moreover from sw have "take (length d) s = d" by (simp only: starts_with_def)
    then have "s = d @ drop (length d) s" by (metis append_take_drop_id)
    ultimately have "matches d s [] cap0 r0"
      unfolding matches_def by (metis append_Nil)
    from least [OF this] show False by simp
  qed
  with tl show ?case unfolding s by (cases "starts_with d (x # ?xs)") auto
qed

text \<open>
  The replace of \<open>^- \<close> under the flags \<open>g\<close> and \<open>m\<close>, place by place: a hyphen becomes
  the bullet exactly where a space follows it and it stands at the start of the input or
  behind a line terminator; everything else stays.
\<close>

lemma replace_bullets_nth:
  "length (replace_bullets b s) = length s \<and>
   (\<forall>i < length s.
      replace_bullets b s ! i =
        (if s ! i = 0x2D \<and> Suc i < length s \<and> s ! Suc i = 0x20 \<and>
            (if i = 0 then b else line_terminator (s ! (i - 1)))
         then 0x2022 else s ! i))"
proof (induction b s rule: replace_bullets.induct)
  case (1 b)
  show ?case by simp
next
  case (2 b c)
  show ?case by simp
next
  case (3 b c c' cs)
  show ?case
  proof (cases "b \<and> c = 0x2D \<and> c' = 0x20")
    case True
    with 3 have IH: "length (replace_bullets False cs) = length cs"
      "\<And>j. j < length cs \<Longrightarrow> replace_bullets False cs ! j =
        (if cs ! j = 0x2D \<and> Suc j < length cs \<and> cs ! Suc j = 0x20 \<and>
            (if j = 0 then False else line_terminator (cs ! (j - 1)))
         then 0x2022 else cs ! j)"
      by simp_all
    have sp: "\<not> line_terminator (0x20 :: 16 word)" by (simp add: line_terminator_def)
    from True have eq: "replace_bullets b (c # c' # cs) = 0x2022 # 0x20 # replace_bullets False cs"
      by simp
    have "replace_bullets b (c # c' # cs) ! i =
        (if (c # c' # cs) ! i = 0x2D \<and> Suc i < length (c # c' # cs) \<and>
            (c # c' # cs) ! Suc i = 0x20 \<and>
            (if i = 0 then b else line_terminator ((c # c' # cs) ! (i - 1)))
         then 0x2022 else (c # c' # cs) ! i)"
      if i: "i < length (c # c' # cs)" for i
    proof (cases i)
      case 0
      with True show ?thesis unfolding eq by simp
    next
      case (Suc j)
      show ?thesis
      proof (cases j)
        case 0
        with Suc True show ?thesis unfolding eq by simp
      next
        case (Suc k)
        with \<open>i = Suc j\<close> i have k: "k < length cs" by simp
        show ?thesis
          using True IH(2) [OF k] sp unfolding \<open>i = Suc j\<close> Suc eq
          by (cases k) (simp_all del: replace_bullets.simps)
      qed
    qed
    with IH(1) show ?thesis unfolding eq by (simp del: replace_bullets.simps)
  next
    case False
    with 3 have IH: "length (replace_bullets (line_terminator c) (c' # cs)) = length (c' # cs)"
      "\<And>j. j < length (c' # cs) \<Longrightarrow> replace_bullets (line_terminator c) (c' # cs) ! j =
        (if (c' # cs) ! j = 0x2D \<and> Suc j < length (c' # cs) \<and> (c' # cs) ! Suc j = 0x20 \<and>
            (if j = 0 then line_terminator c else line_terminator ((c' # cs) ! (j - 1)))
         then 0x2022 else (c' # cs) ! j)"
      by simp_all
    from False have eq: "replace_bullets b (c # c' # cs) =
        c # replace_bullets (line_terminator c) (c' # cs)"
      by auto
    have "replace_bullets b (c # c' # cs) ! i =
        (if (c # c' # cs) ! i = 0x2D \<and> Suc i < length (c # c' # cs) \<and>
            (c # c' # cs) ! Suc i = 0x20 \<and>
            (if i = 0 then b else line_terminator ((c # c' # cs) ! (i - 1)))
         then 0x2022 else (c # c' # cs) ! i)"
      if i: "i < length (c # c' # cs)" for i
    proof (cases i)
      case 0
      with False show ?thesis unfolding eq by auto
    next
      case (Suc j)
      with i have j: "j < length (c' # cs)" by simp
      show ?thesis
        using IH(2) [OF j] unfolding Suc eq
        by (cases j) (simp_all del: replace_bullets.simps)
    qed
    with IH(1) show ?thesis unfolding eq by (simp del: replace_bullets.simps)
  qed
qed

lemma safeText_equations:
  "safeText [] = []"
  "safeText (c # content) =
     (if c = 0x26 then ascii ''&amp;''
      else if c = 0xA0 then ascii ''&nbsp;''
      else if c = 0x3C then ascii ''&lt;''
      else if c = 0x3E then ascii ''&gt;''
      else [c]) @ safeText content"
  by (simp_all add: safeText_def escape_unit_def)

lemma replace_newlines_equations:
  "replace_newlines [] = []"
  "replace_newlines (c # s) = (if c = 0x0A then ascii ''<br>'' else [c]) @ replace_newlines s"
  by (simp_all add: replace_newlines_def)

text \<open>Two ways to see, on a given string, that there is no match or which match is the first.\<close>

lemma no_match_without_delimiter:
  assumes "d \<noteq> []" and "hd d \<notin> set s"
  shows "\<not> matches d s pre cap rest"
proof
  assume "matches d s pre cap rest"
  then have "s = pre @ d @ cap @ d @ rest" by (simp add: matches_def)
  with assms(1) have "hd d \<in> set s" by (cases d) auto
  with assms(2) show False by simp
qed

lemma first_match_found:
  assumes "d \<noteq> []" and "s = pre @ d @ cap @ d @ rest" and "\<not> list_ex line_terminator cap"
    and "hd d \<notin> set pre"
    and "\<forall>k < length cap. \<not> starts_with d (drop k (cap @ d @ rest))"
  shows "first_match d s pre cap rest"
  unfolding first_match_def
proof (intro conjI allI impI)
  show "matches d s pre cap rest" using assms(2,3) by (simp add: matches_def)
next
  fix pre' cap' rest'
  assume "matches d s pre' cap' rest'"
  then have s': "s = pre' @ d @ cap' @ d @ rest'" by (simp add: matches_def)
  show "length pre \<le> length pre'"
  proof (rule ccontr)
    assume "\<not> length pre \<le> length pre'"
    then have lt: "length pre' < length pre" by simp
    from assms(1) obtain x d' where d: "d = x # d'" by (cases d) auto
    from s' d have "s ! length pre' = x" by (simp add: nth_append)
    moreover from assms(2) lt have "s ! length pre' = pre ! length pre'" by (simp add: nth_append)
    ultimately have "x \<in> set pre" using lt by (metis nth_mem)
    with assms(4) d show False by simp
  qed
next
  fix pre' cap' rest'
  assume "matches d s pre' cap' rest'" and len: "length pre' = length pre"
  then have "s = pre' @ d @ cap' @ d @ rest'" by (simp add: matches_def)
  with assms(2) len have eq: "cap @ d @ rest = cap' @ d @ rest'" by simp
  show "length cap \<le> length cap'"
  proof (rule ccontr)
    assume "\<not> length cap \<le> length cap'"
    then have lt: "length cap' < length cap" by simp
    from eq have "drop (length cap') (cap @ d @ rest) = d @ rest'" by simp
    then have "starts_with d (drop (length cap') (cap @ d @ rest))"
      by (simp add: starts_with_def)
    with assms(5) lt show False by blast
  qed
qed

lemma no_match_scan:
  assumes "\<forall>k \<le> length s.
    \<not> (starts_with d (drop k s) \<and> find_close d (drop (k + length d) s) \<noteq> None)"
  shows "\<forall>pre cap rest. \<not> matches d s pre cap rest"
proof (intro allI notI)
  fix pre cap rest
  assume "matches d s pre cap rest"
  then have s: "s = pre @ d @ cap @ d @ rest" and lt: "\<not> list_ex line_terminator cap"
    by (simp_all add: matches_def)
  from s have "starts_with d (drop (length pre) s)" by (simp add: starts_with_def)
  moreover from s have "drop (length pre + length d) s = cap @ d @ rest" by simp
  from find_close_complete [OF this lt]
  have "find_close d (drop (length pre + length d) s) \<noteq> None" .
  moreover from s have "length pre \<le> length s" by simp
  ultimately show False using assms by blast
qed

section \<open>Properties of the handlers\<close>

lemma remove_first_count:
  "(remove_first hs = None \<longrightarrow> sum_list (map count_html hs) = 0) \<and>
   (\<forall>hs'. remove_first hs = Some hs' \<longrightarrow>
      sum_list (map count_html hs') < sum_list (map count_html hs))"
proof (induction hs rule: remove_first.induct)
  case 1
  show ?case by simp
next
  case (2 cs ks rest)
  show ?case
  proof (cases "''suggestion-bubbles'' \<in> set cs")
    case True
    then show ?thesis by simp
  next
    case False
    show ?thesis
    proof (cases "remove_first ks")
      case None
      with False 2 show ?thesis by (cases "remove_first rest") auto
    next
      case (Some ks')
      with False 2 show ?thesis by auto
    qed
  qed
qed

lemma built_in_Cons:
  "built_in ((i, els) # built) j = (if j = i then els else built_in built j)"
  by (simp add: built_in_def)

lemma built_in_fresh: "i \<notin> set (map fst built) \<Longrightarrow> built_in built i = []"
  by (simp add: built_in_def map_of_eq_None_iff [THEN iffD2])

lemma count_node_mono:
  assumes "\<And>j. sum_list (map count_html (built_in built' j))
    \<le> sum_list (map count_html (built_in built j))"
  shows "sum_list (map (count_node built') ns) \<le> sum_list (map (count_node built) ns)"
proof (induction ns)
  case Nil
  show ?case by simp
next
  case (Cons n ns)
  have "count_node built' n \<le> count_node built n"
    using assms by (cases n) simp_all
  with Cons show ?case by simp
qed

lemma remove_first_node_count:
  "(remove_first_node built ns = None \<longrightarrow> sum_list (map (count_node built) ns) = 0) \<and>
   (\<forall>ns' built'. remove_first_node built ns = Some (ns', built') \<longrightarrow>
      sum_list (map (count_node built') ns') < sum_list (map (count_node built) ns) \<and>
      filter scripted ns' = filter scripted ns \<and>
      (\<forall>j. sum_list (map count_html (built_in built' j))
         \<le> sum_list (map count_html (built_in built j))) \<and>
      set (map fst built') \<subseteq> set (map fst built) \<union> eid ` set (filter scripted ns))"
proof (induction built ns rule: remove_first_node.induct)
  case (1 built)
  show ?case by simp
next
  case (2 built i c ps rest)
  show ?case
  proof (cases "remove_first (built_in built i)")
    case (Some els)
    with remove_first_count [of "built_in built i"]
    have lt: "sum_list (map count_html els) < sum_list (map count_html (built_in built i))"
      by simp
    then have le: "sum_list (map count_html (built_in ((i, els) # built) j))
        \<le> sum_list (map count_html (built_in built j))" for j
      by (simp add: built_in_Cons)
    have lt': "sum_list (map (count_node ((i, els) # built)) (Turn i c ps # rest))
        < sum_list (map (count_node built) (Turn i c ps # rest))"
      using count_node_mono [of "(i, els) # built" built rest, OF le] lt
      by (simp add: built_in_Cons)
    have sub: "set (map fst ((i, els) # built))
        \<subseteq> set (map fst built) \<union> eid ` set (filter scripted (Turn i c ps # rest))"
      by simp blast
    from Some have eq: "remove_first_node built (Turn i c ps # rest) =
        Some (Turn i c ps # rest, (i, els) # built)"
      by simp
    from lt' le sub show ?thesis unfolding eq by blast
  next
    case None
    note nt = this
    with remove_first_count [of "built_in built i"]
    have z: "sum_list (map count_html (built_in built i)) = 0" by simp
    show ?thesis
    proof (cases "remove_first_node built rest")
      case None
      with nt 2 z show ?thesis
        by (simp del: sum_list_eq_0_iff)
    next
      case (Some p)
      obtain ns'' built'' where p: "p = (ns'', built'')" by (cases p)
      with Some 2 nt
      have IH: "sum_list (map (count_node built'') ns'') < sum_list (map (count_node built) rest)"
        "filter scripted ns'' = filter scripted rest"
        "\<And>j. sum_list (map count_html (built_in built'' j))
           \<le> sum_list (map count_html (built_in built j))"
        "set (map fst built'') \<subseteq> set (map fst built) \<union> eid ` set (filter scripted rest)"
        by simp_all
      from IH(3) [of i] z have "sum_list (map count_html (built_in built'' i)) = 0"
        by (simp del: sum_list_eq_0_iff)
      with Some p nt IH z show ?thesis
        by (auto simp del: sum_list_eq_0_iff)
    qed
  qed
next
  case (3 built h rest)
  have st: "filter scripted (map Static hs) = []" for hs by (induction hs) auto
  have cn: "sum_list (map (count_node built) (map Static hs)) = sum_list (map count_html hs)" for hs
    by (induction hs) auto
  show ?case
  proof (cases "remove_first [h]")
    case None
    note nt = this
    with remove_first_count [of "[h]"] have z: "count_html h = 0" by simp
    show ?thesis
    proof (cases "remove_first_node built rest")
      case None
      with nt 3 z show ?thesis
        by (simp del: sum_list_eq_0_iff remove_first.simps)
    next
      case (Some p)
      obtain ns'' built'' where p: "p = (ns'', built'')" by (cases p)
      with Some 3 nt
      have IH: "sum_list (map (count_node built'') ns'') < sum_list (map (count_node built) rest)"
        "filter scripted ns'' = filter scripted rest"
        "\<And>j. sum_list (map count_html (built_in built'' j))
           \<le> sum_list (map count_html (built_in built j))"
        "set (map fst built'') \<subseteq> set (map fst built) \<union> eid ` set (filter scripted rest)"
        by (simp_all del: remove_first.simps)
      with Some p nt z show ?thesis
        by (simp del: sum_list_eq_0_iff remove_first.simps)
    qed
  next
    case (Some hs)
    with remove_first_count [of "[h]"] have "sum_list (map count_html hs) < count_html h" by simp
    with Some st cn show ?thesis by (auto simp del: remove_first.simps)
  qed
qed

lemma querySelector_suggestions_count:
  "querySelector_suggestions s \<longleftrightarrow> 0 < count_suggestions s"
proof -
  have a: "remove_first hs \<noteq> None \<longleftrightarrow> 0 < sum_list (map count_html hs)" for hs
    using remove_first_count [of hs] by (cases "remove_first hs") auto
  have b: "remove_first_node built ns \<noteq> None \<longleftrightarrow> 0 < sum_list (map (count_node built) ns)"
    for built ns
    using remove_first_node_count [of built ns] by (cases "remove_first_node built ns") auto
  show ?thesis
    unfolding querySelector_suggestions_def count_suggestions_def a b by auto
qed

lemma suggestions_remove_count:
  "count_suggestions (suggestions_remove s) \<le> count_suggestions s - 1"
proof (cases "remove_first (page_before s)")
  case (Some b)
  with remove_first_count [of "page_before s"] show ?thesis
    by (simp add: suggestions_remove_def count_suggestions_def)
next
  case None
  note nb = this
  show ?thesis
  proof (cases "remove_first_node (injected s) (chatBox s)")
    case (Some p)
    obtain c built where p: "p = (c, built)" by (cases p)
    with Some remove_first_node_count [of "injected s" "chatBox s"]
    have "sum_list (map (count_node built) c) < sum_list (map (count_node (injected s)) (chatBox s))"
      by simp
    with Some p nb show ?thesis
      by (simp add: suggestions_remove_def count_suggestions_def)
  next
    case None
    note nc = this
    show ?thesis
    proof (cases "remove_first (page_after s)")
      case (Some a)
      with remove_first_count [of "page_after s"] nb nc show ?thesis
        by (simp add: suggestions_remove_def count_suggestions_def)
    next
      case None
      with nb nc show ?thesis
        by (simp add: suggestions_remove_def)
           (simp add: remove_first_count [of "page_before s", THEN conjunct1, rule_format]
              remove_first_count [of "page_after s", THEN conjunct1, rule_format]
              remove_first_node_count [of "injected s" "chatBox s", THEN conjunct1, rule_format]
              count_suggestions_def)
    qed
  qed
qed

lemma suggestions_remove_fields:
  "turns (suggestions_remove s) = turns s"
  "userInput_value (suggestions_remove s) = userInput_value s"
  "userInput_focused (suggestions_remove s) = userInput_focused s"
  "sendBtn_disabled (suggestions_remove s) = sendBtn_disabled s"
  "isProcessing (suggestions_remove s) = isProcessing s"
  "thinkingMessage (suggestions_remove s) = thinkingMessage s"
  "next_eid (suggestions_remove s) = next_eid s"
  "pending (suggestions_remove s) = pending s"
  "console (suggestions_remove s) = console s"
  "parser (suggestions_remove s) = parser s"
  "set (map fst (injected (suggestions_remove s))) \<subseteq>
     set (map fst (injected s)) \<union> eid ` set (turns s)"
  using remove_first_node_count [of "injected s" "chatBox s"]
  unfolding suggestions_remove_def turns_def
  by (auto split: option.splits)

lemma placeholders_turns: "placeholders s = filter is_placeholder (turns s)"
proof -
  have "is_placeholder n \<longrightarrow> scripted n" for n by (cases n) auto
  then have "filter is_placeholder (filter scripted ns) = filter is_placeholder ns" for ns
    by (induction ns) auto
  then show ?thesis by (simp add: placeholders_def turns_def)
qed

lemma wf_dom_suggestions_remove:
  assumes "wf_dom s"
  shows "wf_dom (suggestions_remove s)"
proof -
  from assms have "\<forall>i \<in> set (map fst (injected s)) \<union> eid ` set (turns s). i < next_eid s"
    by (auto simp: wf_dom_def list_all_iff)
  with suggestions_remove_fields(11) [of s]
  have "\<forall>i \<in> set (map fst (injected (suggestions_remove s))). i < next_eid s"
    by blast
  then have "list_all (\<lambda>i. i < next_eid s) (map fst (injected (suggestions_remove s)))"
    by (simp only: list_all_iff)
  with assms show ?thesis
    by (simp add: wf_dom_def placeholders_turns suggestions_remove_fields)
qed

text \<open>\<open>addMessage\<close> throws only where the conversion of its text to a string does.\<close>

lemma addMessage_eq:
  "addMessage s text type =
     (if type = Medical then Inr (append_message s [] type)
      else case textContent text of
             Inl e \<Rightarrow> Inl e
           | Inr content \<Rightarrow> Inr (append_message s content type))"
  by (simp add: addMessage_def append_message_def new_message_def Let_def scrollToBottom_def
        split: sum.splits)

lemma addMessage_Str: "addMessage s (Str content) type = Inr (append_message s content type)"
  by (cases type) (simp_all add: addMessage_eq textContent_def append_message_def new_message_def)

lemma append_message_fields:
  "turns (append_message s content type) = turns s @ [new_message s content type]"
  "userInput_value (append_message s content type) = userInput_value s"
  "userInput_focused (append_message s content type) = userInput_focused s"
  "sendBtn_disabled (append_message s content type) = sendBtn_disabled s"
  "isProcessing (append_message s content type) = isProcessing s"
  "thinkingMessage (append_message s content type) = thinkingMessage s"
  "next_eid (append_message s content type) = Suc (next_eid s)"
  "pending (append_message s content type) = pending s"
  "console (append_message s content type) = console s"
  "parser (append_message s content type) = parser s"
  by (simp_all add: append_message_def Let_def suggestions_remove_fields new_message_def)
     (simp_all add: turns_def)

lemma wf_dom_appended:
  assumes "wf_dom s"
  shows "wf_dom (s\<lparr>chatBox := chatBox s @ [Turn (next_eid s) (Message type) ps],
                    next_eid := Suc (next_eid s)\<rparr>)"
proof -
  from assms have lt: "\<forall>n \<in> set (turns s). eid n < next_eid s"
    by (simp add: wf_dom_def list_all_iff)
  then have "next_eid s \<notin> eid ` set (turns s)" by auto
  with assms lt show ?thesis
    by (auto simp: wf_dom_def placeholders_def turns_def list_all_iff)
qed

lemma wf_dom_append_message: "wf_dom s \<Longrightarrow> wf_dom (append_message s content type)"
  unfolding append_message_def Let_def new_message_def
  by (simp add: wf_dom_appended wf_dom_suggestions_remove)

lemma append_message_count:
  assumes "wf_dom s"
  shows "count_suggestions (append_message s content type) \<le> count_suggestions s"
    and "chatBox s \<noteq> [] \<Longrightarrow>
      count_suggestions (append_message s content type) \<le> count_suggestions s - 1"
proof -
  let ?s1 = "s\<lparr>chatBox := chatBox s @ [new_message s content type],
               next_eid := Suc (next_eid s)\<rparr>"
  from assms have "next_eid s \<notin> set (map fst (injected s))"
    by (auto simp: wf_dom_def list_all_iff)
  then have "built_in (injected s) (next_eid s) = []" by (rule built_in_fresh)
  then have c1: "count_suggestions ?s1 = count_suggestions s"
    by (simp add: count_suggestions_def new_message_def)
  have am: "append_message s content type =
      (if querySelector_suggestions ?s1 \<and> length (chatBox ?s1) > 1
       then suggestions_remove ?s1 else ?s1)"
    by (simp add: append_message_def Let_def)
  show "count_suggestions (append_message s content type) \<le> count_suggestions s"
    using suggestions_remove_count [of ?s1] c1 unfolding am by (auto simp del: One_nat_def)
  assume "chatBox s \<noteq> []"
  then have "length (chatBox ?s1) > 1" by (cases "chatBox s") auto
  then show "count_suggestions (append_message s content type) \<le> count_suggestions s - 1"
    using suggestions_remove_count [of ?s1] c1 querySelector_suggestions_count [of ?s1]
    unfolding am by (auto simp del: One_nat_def)
qed

lemma remove_turn_fields:
  "turns (remove_turn i s) = filter (\<lambda>n. \<not> is_turn i n) (turns s)"
  "userInput_value (remove_turn i s) = userInput_value s"
  "userInput_focused (remove_turn i s) = userInput_focused s"
  "sendBtn_disabled (remove_turn i s) = sendBtn_disabled s"
  "isProcessing (remove_turn i s) = isProcessing s"
  "thinkingMessage (remove_turn i s) = thinkingMessage s"
  "next_eid (remove_turn i s) = next_eid s"
  "pending (remove_turn i s) = pending s"
  "console (remove_turn i s) = console s"
  "count_suggestions (remove_turn i s) \<le> count_suggestions s"
  "parser (remove_turn i s) = parser s"
  "injected (remove_turn i s) = injected s"
proof -
  have "sum_list (map (count_node b) (filter P ns)) \<le> sum_list (map (count_node b) ns)"
    for b P ns
    by (induction ns) auto
  then show "count_suggestions (remove_turn i s) \<le> count_suggestions s"
    by (simp add: count_suggestions_def remove_turn_def)
qed (auto simp: remove_turn_def turns_def intro: filter_cong)

text \<open>Under the invariant, removing what \<open>thinkingMessage\<close> refers to removes the placeholders.\<close>

lemma is_turn_placeholder:
  assumes "wf_dom s" and "thinkingMessage s = Some i" and "n \<in> set (turns s)"
  shows "is_turn i n \<longleftrightarrow> is_placeholder n"
proof -
  let ?p = "Turn i ThinkingMessage thinking_parts"
  from assms(1,2) have ph: "filter is_placeholder (turns s) = [?p]"
    by (simp add: wf_dom_def placeholders_turns)
  then have "?p \<in> set (filter is_placeholder (turns s))" by simp
  then have pin: "?p \<in> set (turns s)" by simp
  from assms(3) have "scripted n" by (simp add: turns_def)
  then obtain j c ps where n: "n = Turn j c ps"
    by (cases n) auto
  show ?thesis
  proof
    assume "is_turn i n"
    with n have "eid n = eid ?p" by simp
    moreover from assms(1) have "distinct (map eid (turns s))" by (simp add: wf_dom_def)
    ultimately have "n = ?p" using assms(3) pin by (meson distinct_map inj_onD)
    then show "is_placeholder n" by simp
  next
    assume "is_placeholder n"
    with assms(3) have "n \<in> set (filter is_placeholder (turns s))" by simp
    with ph have "n = ?p" by simp
    then show "is_turn i n" by simp
  qed
qed

lemma hideThinkingIndicator_fields:
  "userInput_value (hideThinkingIndicator s) = userInput_value s"
  "userInput_focused (hideThinkingIndicator s) = userInput_focused s"
  "sendBtn_disabled (hideThinkingIndicator s) = sendBtn_disabled s"
  "isProcessing (hideThinkingIndicator s) = isProcessing s"
  "thinkingMessage (hideThinkingIndicator s) = None"
  "next_eid (hideThinkingIndicator s) = next_eid s"
  "pending (hideThinkingIndicator s) = pending s"
  "console (hideThinkingIndicator s) = console s"
  "count_suggestions (hideThinkingIndicator s) \<le> count_suggestions s"
  "parser (hideThinkingIndicator s) = parser s"
  "injected (hideThinkingIndicator s) = injected s"
  using remove_turn_fields(10) [of _ s]
  by (auto simp: hideThinkingIndicator_def remove_turn_fields count_suggestions_def
        split: option.splits)

lemma hideThinkingIndicator_turns:
  assumes "wf_dom s"
  shows "turns (hideThinkingIndicator s) = filter (\<lambda>n. \<not> is_placeholder n) (turns s)"
proof (cases "thinkingMessage s")
  case None
  with assms have "filter is_placeholder (turns s) = []"
    by (simp add: wf_dom_def placeholders_turns)
  then have "filter (\<lambda>n. \<not> is_placeholder n) (turns s) = turns s"
    by (simp add: filter_empty_conv)
  with None show ?thesis by (simp add: hideThinkingIndicator_def)
next
  case (Some i)
  have "turns (hideThinkingIndicator s) = turns (remove_turn i s)"
    by (simp add: hideThinkingIndicator_def Some turns_def)
  also have "\<dots> = filter (\<lambda>n. \<not> is_turn i n) (turns s)"
    by (rule remove_turn_fields(1))
  also have "\<dots> = filter (\<lambda>n. \<not> is_placeholder n) (turns s)"
    using is_turn_placeholder [OF assms Some] by (intro filter_cong) auto
  finally show ?thesis .
qed

lemma wf_dom_hideThinkingIndicator:
  assumes "wf_dom s"
  shows "wf_dom (hideThinkingIndicator s)" and "placeholders (hideThinkingIndicator s) = []"
proof -
  have t: "turns (hideThinkingIndicator s) = filter (\<lambda>n. \<not> is_placeholder n) (turns s)"
    by (rule hideThinkingIndicator_turns [OF assms])
  show "placeholders (hideThinkingIndicator s) = []"
    by (simp add: placeholders_turns t)
  with assms show "wf_dom (hideThinkingIndicator s)"
    by (simp add: wf_dom_def t hideThinkingIndicator_fields list_all_iff distinct_map_filter)
qed

lemma turns_update:
  "turns (s\<lparr>userInput_value := v\<rparr>) = turns s"
  "turns (s\<lparr>userInput_focused := f\<rparr>) = turns s"
  "turns (s\<lparr>sendBtn_disabled := d\<rparr>) = turns s"
  "turns (s\<lparr>isProcessing := b\<rparr>) = turns s"
  "turns (s\<lparr>thinkingMessage := t\<rparr>) = turns s"
  "turns (s\<lparr>next_eid := n\<rparr>) = turns s"
  "turns (s\<lparr>pending := p\<rparr>) = turns s"
  "turns (s\<lparr>console := c\<rparr>) = turns s"
  "turns (s\<lparr>injected := j\<rparr>) = turns s"
  "turns (s\<lparr>chatBox := chatBox s @ [Turn i k ps]\<rparr>) = turns s @ [Turn i k ps]"
  by (simp_all add: turns_def)

lemma count_suggestions_update:
  "count_suggestions (s\<lparr>userInput_value := v\<rparr>) = count_suggestions s"
  "count_suggestions (s\<lparr>userInput_focused := f\<rparr>) = count_suggestions s"
  "count_suggestions (s\<lparr>sendBtn_disabled := d\<rparr>) = count_suggestions s"
  "count_suggestions (s\<lparr>isProcessing := b\<rparr>) = count_suggestions s"
  "count_suggestions (s\<lparr>thinkingMessage := t\<rparr>) = count_suggestions s"
  "count_suggestions (s\<lparr>next_eid := n\<rparr>) = count_suggestions s"
  "count_suggestions (s\<lparr>pending := p\<rparr>) = count_suggestions s"
  "count_suggestions (s\<lparr>console := c\<rparr>) = count_suggestions s"
  by (simp_all add: count_suggestions_def)

lemma showThinkingIndicator_hide:
  "showThinkingIndicator s =
     (hideThinkingIndicator s)
       \<lparr>chatBox := chatBox (hideThinkingIndicator s) @
          [Turn (next_eid s) ThinkingMessage thinking_parts],
        next_eid := Suc (next_eid s), thinkingMessage := Some (next_eid s)\<rparr>"
  by (simp add: showThinkingIndicator_def hideThinkingIndicator_def Let_def scrollToBottom_def
        remove_turn_def split: option.splits)

lemma showThinkingIndicator_fields:
  "turns (showThinkingIndicator s) =
     turns (hideThinkingIndicator s) @ [Turn (next_eid s) ThinkingMessage thinking_parts]"
  "userInput_value (showThinkingIndicator s) = userInput_value s"
  "userInput_focused (showThinkingIndicator s) = userInput_focused s"
  "sendBtn_disabled (showThinkingIndicator s) = sendBtn_disabled s"
  "isProcessing (showThinkingIndicator s) = isProcessing s"
  "thinkingMessage (showThinkingIndicator s) = Some (next_eid s)"
  "next_eid (showThinkingIndicator s) = Suc (next_eid s)"
  "pending (showThinkingIndicator s) = pending s"
  "console (showThinkingIndicator s) = console s"
  "parser (showThinkingIndicator s) = parser s"
  "injected (showThinkingIndicator s) = injected s"
  by (simp_all add: showThinkingIndicator_hide hideThinkingIndicator_fields turns_def)

lemma showThinkingIndicator_count:
  assumes "wf_dom s"
  shows "count_suggestions (showThinkingIndicator s) \<le> count_suggestions s"
proof -
  from assms have "next_eid s \<notin> set (map fst (injected s))"
    by (auto simp: wf_dom_def list_all_iff)
  then have "built_in (injected s) (next_eid s) = []" by (rule built_in_fresh)
  then have "count_suggestions (showThinkingIndicator s) =
      count_suggestions (hideThinkingIndicator s)"
    unfolding showThinkingIndicator_hide
    by (simp add: count_suggestions_def hideThinkingIndicator_fields)
  then show ?thesis
    using hideThinkingIndicator_fields(9) [of s] by simp
qed

lemma wf_dom_showThinkingIndicator:
  assumes "wf_dom s"
  shows "wf_dom (showThinkingIndicator s)"
    and "placeholders (showThinkingIndicator s) =
           [Turn (next_eid s) ThinkingMessage thinking_parts]"
proof -
  note h = wf_dom_hideThinkingIndicator [OF assms]
  show p: "placeholders (showThinkingIndicator s) =
      [Turn (next_eid s) ThinkingMessage thinking_parts]"
    using h(2) by (simp add: placeholders_turns showThinkingIndicator_fields)
  from h(1) have lt: "\<forall>n \<in> set (turns (hideThinkingIndicator s)). eid n < next_eid s"
    "\<forall>i \<in> set (map fst (injected s)). i < next_eid s"
    by (simp_all add: wf_dom_def list_all_iff hideThinkingIndicator_fields)
  then have "next_eid s \<notin> eid ` set (turns (hideThinkingIndicator s))" by auto
  with h(1) lt p show "wf_dom (showThinkingIndicator s)"
    by (auto simp: wf_dom_def showThinkingIndicator_fields list_all_iff)
qed

lemma addMedicalResponse_fields:
  assumes "addMedicalResponse s data = Inr s'"
  shows "\<exists>ps. turns s' = turns s @ [Turn (next_eid s) (Message Medical) ps]"
    "userInput_value s' = userInput_value s"
    "userInput_focused s' = userInput_focused s"
    "sendBtn_disabled s' = sendBtn_disabled s"
    "isProcessing s' = isProcessing s"
    "thinkingMessage s' = thinkingMessage s"
    "next_eid s' = Suc (next_eid s)"
    "pending s' = pending s"
    "console s' = console s"
    "\<exists>built. injected s' = (next_eid s, built) # injected s"
    "parser s' = parser s"
  using assms
  by (auto simp: addMedicalResponse_def Let_def turns_def split: sum.splits)

lemma wf_dom_addMedicalResponse:
  assumes "wf_dom s" and "addMedicalResponse s data = Inr s'"
  shows "wf_dom s'"
proof -
  note f = addMedicalResponse_fields [OF assms(2)]
  from f(1) obtain ps where t: "turns s' = turns s @ [Turn (next_eid s) (Message Medical) ps]"
    by blast
  from f(10) obtain built where j: "injected s' = (next_eid s, built) # injected s" by blast
  from assms(1) have lt: "\<forall>n \<in> set (turns s). eid n < next_eid s"
    by (simp add: wf_dom_def list_all_iff)
  then have "next_eid s \<notin> eid ` set (turns s)" by auto
  with assms(1) lt t j f show ?thesis
    by (auto simp: wf_dom_def placeholders_turns list_all_iff)
qed

lemma wf_dom_update:
  "wf_dom (s\<lparr>userInput_value := v\<rparr>) = wf_dom s"
  "wf_dom (s\<lparr>userInput_focused := f\<rparr>) = wf_dom s"
  "wf_dom (s\<lparr>sendBtn_disabled := d\<rparr>) = wf_dom s"
  "wf_dom (s\<lparr>isProcessing := b\<rparr>) = wf_dom s"
  "wf_dom (s\<lparr>pending := p\<rparr>) = wf_dom s"
  "wf_dom (s\<lparr>console := c\<rparr>) = wf_dom s"
  by (simp_all add: wf_dom_def turns_def placeholders_def)

lemma on_error_eq:
  "on_error s e =
     reset_processing
       ((append_message (hideThinkingIndicator s) apology Bot)
          \<lparr>console := console s @ [e]\<rparr>)"
  by (simp add: on_error_def Let_def addMessage_Str append_message_fields
        hideThinkingIndicator_fields)

lemma on_error_fields:
  "turns (on_error s e) =
     turns (hideThinkingIndicator s) @ [new_message (hideThinkingIndicator s) apology Bot]"
  "userInput_value (on_error s e) = userInput_value s"
  "userInput_focused (on_error s e) = True"
  "sendBtn_disabled (on_error s e) = False"
  "isProcessing (on_error s e) = False"
  "thinkingMessage (on_error s e) = None"
  "next_eid (on_error s e) = Suc (next_eid s)"
  "pending (on_error s e) = pending s"
  "console (on_error s e) = console s @ [e]"
  "parser (on_error s e) = parser s"
  by (simp_all add: on_error_eq reset_processing_def append_message_fields
        hideThinkingIndicator_fields turns_update)


lemma wf_dom_on_error: "wf_dom s \<Longrightarrow> wf_dom (on_error s e)"
  by (simp add: on_error_eq reset_processing_def wf_dom_update wf_dom_append_message
        wf_dom_hideThinkingIndicator(1))

lemma on_data_Inr:
  assumes "on_data s data = Inr s'"
  shows "isProcessing s' = False" "sendBtn_disabled s' = False" "userInput_focused s' = True"
    "pending s' = pending s" "console s' = console s" "userInput_value s' = userInput_value s"
    "wf_dom s \<Longrightarrow> wf_dom s'" "thinkingMessage s' = None"
proof -
  let ?h = "hideThinkingIndicator s"
  from assms consider
    (med) s2 where "addMedicalResponse ?h data = Inr s2" "s' = reset_processing (scrollToBottom s2)"
  | (plain) content where
      "s' = reset_processing (scrollToBottom (append_message ?h content Bot))"
    by (auto simp: on_data_def Let_def addMessage_eq split: sum.splits if_splits)
  then have "isProcessing s' = False \<and> sendBtn_disabled s' = False \<and> userInput_focused s' = True \<and>
    pending s' = pending s \<and> console s' = console s \<and> userInput_value s' = userInput_value s \<and>
    (wf_dom s \<longrightarrow> wf_dom s') \<and> thinkingMessage s' = None"
  proof cases
    case med
    note f = addMedicalResponse_fields [OF med(1)]
    from med(2) f wf_dom_addMedicalResponse [OF wf_dom_hideThinkingIndicator(1) med(1)]
    show ?thesis
      by (simp add: reset_processing_def scrollToBottom_def hideThinkingIndicator_fields
            wf_dom_update)
  next
    case plain
    then show ?thesis
      by (simp add: reset_processing_def scrollToBottom_def hideThinkingIndicator_fields
            append_message_fields wf_dom_update wf_dom_append_message
            wf_dom_hideThinkingIndicator(1))
  qed
  then show "isProcessing s' = False" "sendBtn_disabled s' = False" "userInput_focused s' = True"
    "pending s' = pending s" "console s' = console s" "userInput_value s' = userInput_value s"
    "wf_dom s \<Longrightarrow> wf_dom s'" "thinkingMessage s' = None"
    by blast+
qed

lemma ToString_error:
  "ToString v = Inl e \<Longrightarrow> e = TypeError"
  "element_strings vs = Inl e \<Longrightarrow> e = TypeError"
  by (induction v and vs rule: ToString_element_strings.induct)
     (auto split: sum.splits if_splits)

lemma on_data_Inl:
  assumes "on_data s data = Inl (e, s1)"
  shows "s1 = hideThinkingIndicator s" and "e = TypeError"
proof -
  have g: "get_prop v k = Inl e' \<Longrightarrow> e' = TypeError" for v k e'
    by (cases v) auto
  have t: "symptom_tags xs = Inl e' \<Longrightarrow> e' = TypeError" for xs e'
    by (induction xs rule: symptom_tags.induct) (auto split: sum.splits)
  have m: "symptoms_map v = Inl e' \<Longrightarrow> e' = TypeError" for v e'
    using t by (cases v) auto
  have ts: "ToString v = Inl e' \<Longrightarrow> e' = TypeError" for v e'
    by (rule ToString_error(1))
  have a: "addMedicalResponse s0 data = Inl e' \<Longrightarrow> e' = TypeError" for s0 e'
    using g m ts by (auto simp: addMedicalResponse_def Let_def split: sum.splits)
  have b: "addMessage s0 v ty = Inl e' \<Longrightarrow> e' = TypeError" for s0 v ty e'
    using ts by (auto simp: addMessage_eq textContent_def split: sum.splits if_splits)
  from assms show "s1 = hideThinkingIndicator s"
    by (auto simp: on_data_def Let_def split: sum.splits if_splits)
  from assms show "e = TypeError"
    using g a b by (auto simp: on_data_def Let_def split: sum.splits if_splits)
qed

lemma settle_cases:
  obtains (err) e where "settle s out = on_error (s\<lparr>pending := tl (pending s)\<rparr>) e"
  | (thrown) e data where
      "on_data (s\<lparr>pending := tl (pending s)\<rparr>) data =
         Inl (e, hideThinkingIndicator (s\<lparr>pending := tl (pending s)\<rparr>))"
      "settle s out = on_error (hideThinkingIndicator (s\<lparr>pending := tl (pending s)\<rparr>)) e"
  | (fin) data s1 where "on_data (s\<lparr>pending := tl (pending s)\<rparr>) data = Inr s1"
      "settle s out = s1"
proof (cases out)
  case Rejected
  then show ?thesis using err by (simp add: settle_def)
next
  case (Resolved r)
  let ?s0 = "s\<lparr>pending := tl (pending s)\<rparr>"
  show ?thesis
  proof (cases "on_response r")
    case (Inl e)
    with Resolved show ?thesis using err by (simp add: settle_def)
  next
    case (Inr data)
    show ?thesis
    proof (cases "on_data ?s0 data")
      case (Inl p)
      obtain e s1 where p: "p = (e, s1)" by (cases p)
      with Inl on_data_Inl(1) [of ?s0 data e s1] have "s1 = hideThinkingIndicator ?s0" by simp
      with Inl p Inr Resolved show ?thesis using thrown by (simp add: settle_def)
    next
      case (Inr s1)
      with \<open>on_response r = Inr data\<close> Resolved show ?thesis using fin
        by (simp add: settle_def)
    qed
  qed
qed

lemma settle_fields:
  "isProcessing (settle s out) = False"
  "sendBtn_disabled (settle s out) = False"
  "userInput_focused (settle s out) = True"
  "pending (settle s out) = tl (pending s)"
  "userInput_value (settle s out) = userInput_value s"
  "thinkingMessage (settle s out) = None"
  "wf_dom s \<Longrightarrow> wf_dom (settle s out)"
proof -
  let ?s0 = "s\<lparr>pending := tl (pending s)\<rparr>"
  have wf0: "wf_dom s \<Longrightarrow> wf_dom ?s0" by (simp add: wf_dom_update)
  have "isProcessing (settle s out) = False \<and> sendBtn_disabled (settle s out) = False \<and>
    userInput_focused (settle s out) = True \<and> pending (settle s out) = tl (pending s) \<and>
    userInput_value (settle s out) = userInput_value s \<and> thinkingMessage (settle s out) = None \<and>
    (wf_dom s \<longrightarrow> wf_dom (settle s out))"
  proof (rule settle_cases [of s out], goal_cases)
    case (1 e)
    with wf0 show ?case
      by (simp add: on_error_fields wf_dom_on_error)
  next
    case (2 data e)
    with wf0 show ?case
      by (simp add: on_error_fields hideThinkingIndicator_fields wf_dom_on_error
            wf_dom_hideThinkingIndicator(1))
  next
    case (3 data s1)
    with on_data_Inr [OF 3(1)] wf0 show ?case by simp
  qed
  then show "isProcessing (settle s out) = False"
    "sendBtn_disabled (settle s out) = False"
    "userInput_focused (settle s out) = True"
    "pending (settle s out) = tl (pending s)"
    "userInput_value (settle s out) = userInput_value s"
    "thinkingMessage (settle s out) = None"
    "wf_dom s \<Longrightarrow> wf_dom (settle s out)"
    by blast+
qed

lemma sendMessage_rejected:
  "trim (userInput_value s) = [] \<or> isProcessing s \<Longrightarrow> sendMessage s = s"
  by (auto simp: sendMessage_def Let_def)

lemma sendMessage_eq:
  "sendMessage s =
     (if trim (userInput_value s) = [] \<or> isProcessing s then s
      else (showThinkingIndicator
              ((append_message (s\<lparr>isProcessing := True, sendBtn_disabled := True\<rparr>)
                  (trim (userInput_value s)) User)\<lparr>userInput_value := []\<rparr>))
           \<lparr>pending := pending s @ [trim (userInput_value s)]\<rparr>)"
  by (simp add: sendMessage_def Let_def addMessage_Str showThinkingIndicator_fields
        append_message_fields)

lemma sendMessage_accepted:
  assumes "trim (userInput_value s) \<noteq> []" and "\<not> isProcessing s"
  shows "isProcessing (sendMessage s)"
    "sendBtn_disabled (sendMessage s)"
    "userInput_value (sendMessage s) = []"
    "userInput_focused (sendMessage s) = userInput_focused s"
    "pending (sendMessage s) = pending s @ [trim (userInput_value s)]"
    "thinkingMessage (sendMessage s) = Some (Suc (next_eid s))"
    "next_eid (sendMessage s) = Suc (Suc (next_eid s))"
    "console (sendMessage s) = console s"
    "wf_dom s \<Longrightarrow>
       turns (sendMessage s) =
         filter (\<lambda>n. \<not> is_placeholder n) (turns s) @
         [Turn (next_eid s) (Message User)
            [Markup (formattedText (safeText (trim (userInput_value s))))],
          Turn (Suc (next_eid s)) ThinkingMessage thinking_parts]"
proof -
  let ?m = "trim (userInput_value s)"
  let ?s1 = "s\<lparr>isProcessing := True, sendBtn_disabled := True\<rparr>"
  let ?s3 = "(append_message ?s1 ?m User)\<lparr>userInput_value := []\<rparr>"
  from assms have sm: "sendMessage s = (showThinkingIndicator ?s3)\<lparr>pending := pending s @ [?m]\<rparr>"
    by (simp add: sendMessage_eq)
  show "isProcessing (sendMessage s)" "sendBtn_disabled (sendMessage s)"
    "userInput_value (sendMessage s) = []"
    "userInput_focused (sendMessage s) = userInput_focused s"
    "pending (sendMessage s) = pending s @ [trim (userInput_value s)]"
    "thinkingMessage (sendMessage s) = Some (Suc (next_eid s))"
    "next_eid (sendMessage s) = Suc (Suc (next_eid s))"
    "console (sendMessage s) = console s"
    unfolding sm by (simp_all add: showThinkingIndicator_fields append_message_fields)
  assume wf: "wf_dom s"
  then have "wf_dom ?s3" by (simp add: wf_dom_update wf_dom_append_message)
  then have "turns (hideThinkingIndicator ?s3) = filter (\<lambda>n. \<not> is_placeholder n) (turns ?s3)"
    by (rule hideThinkingIndicator_turns)
  then show "turns (sendMessage s) =
         filter (\<lambda>n. \<not> is_placeholder n) (turns s) @
         [Turn (next_eid s) (Message User)
            [Markup (formattedText (safeText (trim (userInput_value s))))],
          Turn (Suc (next_eid s)) ThinkingMessage thinking_parts]"
    unfolding sm
    by (simp add: showThinkingIndicator_fields append_message_fields turns_update new_message_def)
qed

lemma sendMessage_invariants:
  "wf_dom s \<Longrightarrow> wf_dom (sendMessage s)"
  "wf_flight s \<Longrightarrow> wf_flight (sendMessage s)"
  "wf_dom s \<Longrightarrow> count_suggestions (sendMessage s) \<le> count_suggestions s"
proof -
  let ?m = "trim (userInput_value s)"
  let ?s1 = "s\<lparr>isProcessing := True, sendBtn_disabled := True\<rparr>"
  let ?s3 = "(append_message ?s1 ?m User)\<lparr>userInput_value := []\<rparr>"
  note sm = sendMessage_eq [of s]
  have wf3: "wf_dom s \<Longrightarrow> wf_dom ?s3" by (simp add: wf_dom_update wf_dom_append_message)
  show "wf_dom s \<Longrightarrow> wf_dom (sendMessage s)"
    unfolding sm using wf3
    by (simp add: wf_dom_update wf_dom_showThinkingIndicator(1))
  show "wf_flight s \<Longrightarrow> wf_flight (sendMessage s)"
    unfolding sm
    by (auto simp: wf_flight_def showThinkingIndicator_fields append_message_fields)
  assume wf: "wf_dom s"
  have "count_suggestions (showThinkingIndicator ?s3) \<le> count_suggestions ?s3"
    by (rule showThinkingIndicator_count) (rule wf3 [OF wf])
  also have "\<dots> = count_suggestions (append_message ?s1 ?m User)"
    by (simp add: count_suggestions_update)
  also have "\<dots> \<le> count_suggestions ?s1"
    by (rule append_message_count(1)) (simp add: wf_dom_update wf)
  also have "\<dots> = count_suggestions s" by (simp add: count_suggestions_update)
  finally show "count_suggestions (sendMessage s) \<le> count_suggestions s"
    unfolding sm by (simp add: count_suggestions_update)
qed

lemma step_invariants:
  "wf_dom s \<Longrightarrow> wf_dom (step s e)"
  "wf_flight s \<Longrightarrow> wf_flight (step s e)"
proof -
  have u: "wf_flight (s\<lparr>userInput_value := v, sendBtn_disabled := d, userInput_focused := f\<rparr>)
      = wf_flight s" for v d f
    by (simp add: wf_flight_def)
  show "wf_dom s \<Longrightarrow> wf_dom (step s e)"
    by (cases e)
       (simp_all add: input_handler_def keypress_handler_def useSuggestion_def wf_dom_update
          sendMessage_invariants(1) settle_fields(7))
  show "wf_flight s \<Longrightarrow> wf_flight (step s e)"
  proof (cases e)
    case (Settle out)
    assume "wf_flight s"
    then show ?thesis
      unfolding Settle by (cases "pending s") (auto simp: wf_flight_def settle_fields)
  next
    case (Suggestion sug)
    assume "wf_flight s"
    then show ?thesis
      unfolding Suggestion using u by (simp add: useSuggestion_def sendMessage_invariants(2))
  next
    case (Input v)
    assume "wf_flight s"
    then show ?thesis
      unfolding Input by (simp add: input_handler_def wf_flight_def)
  qed (simp_all add: keypress_handler_def sendMessage_invariants(2))
qed

lemma initial_invariants:
  "wf_dom (initial p)" "wf_flight (initial p)"
proof -
  have "filter scripted (map Static hs) = []" "filter is_placeholder (map Static hs) = []" for hs
    by (induction hs) auto
  then show "wf_dom (initial p)"
    by (simp add: wf_dom_def initial_def turns_def placeholders_def)
  show "wf_flight (initial p)"
    by (simp add: wf_flight_def initial_def)
qed

lemma run_invariants:
  "wf_dom s \<Longrightarrow> wf_dom (run s evs)"
  "wf_flight s \<Longrightarrow> wf_flight (run s evs)"
proof -
  show "wf_dom s \<Longrightarrow> wf_dom (run s evs)"
    unfolding run_def by (induction evs arbitrary: s) (simp_all add: step_invariants(1))
  show "wf_flight s \<Longrightarrow> wf_flight (run s evs)"
    unfolding run_def by (induction evs arbitrary: s) (simp_all add: step_invariants(2))
qed

section \<open>The claim about plain turns\<close>

lemma turns_hideThinkingIndicator_pending:
  "turns (hideThinkingIndicator (s\<lparr>pending := p\<rparr>)) = turns (hideThinkingIndicator s)"
  by (simp add: hideThinkingIndicator_def remove_turn_def turns_def split: option.splits)

lemma on_data_plain:
  assumes "get_prop data (ascii ''mode'') = Inr mode" and "mode \<noteq> Str (ascii ''medical'')"
    and "get_prop data (ascii ''response'') = Inr response"
    and "textContent response = Inr content"
  shows "on_data s data =
    Inr (reset_processing (append_message (hideThinkingIndicator s) content Bot))"
  using assms by (simp add: on_data_def Let_def addMessage_eq scrollToBottom_def)

text \<open>
  C5. A successful response that is not medical and whose \<open>response\<close> has the text
  \<open>content\<close> is rendered as one bot turn, appended to the chat box behind the turns that
  were there (the thinking placeholder gone): the header and the markup the formatter
  makes of \<open>content\<close>. That markup is made by first neutralising the text, code unit by
  code unit (\<open>&\<close>, the no-break space, \<open><\<close> and \<open>>\<close> become character references,
  so what is read back holds no \<open><\<close> and no \<open>>\<close>), and then applying the four
  replacements in the order of the source. Each replacement is pinned down for every
  string \<open>u\<close>: \<open>**..**\<close> and \<open>*..*\<close> leave a string without a match as it is and
  otherwise replace the first match by the group between \<open><strong>\<close> or \<open><em>\<close> tags
  and go on behind it; a hyphen becomes the bullet exactly where a space follows it at
  the start of a line; every newline becomes \<open><br>\<close>. In the markup that is rendered,
  every \<open><\<close> and every \<open>>\<close> belongs to a tag the formatter wrote: none comes from the
  text.
\<close>

theorem C5_plain_text_rendering:
  assumes "get_prop data (ascii ''mode'') = Inr mode" and "mode \<noteq> Str (ascii ''medical'')"
    and "get_prop data (ascii ''response'') = Inr response"
    and "textContent response = Inr content"
  shows "turns (settle s (Resolved (Response True (Some data)))) =
      turns (hideThinkingIndicator s) @
      [Turn (next_eid s) (Message Bot)
         [message_header ''fa-user-md'' ''MediChat Assistant'',
          Markup (replace_newlines (replace_bullets True (replace_em (replace_strong
            (safeText content)))))]] \<and>
    safe_markup (replace_newlines (replace_bullets True (replace_em (replace_strong
      (safeText content))))) \<and>
    0x3C \<notin> set (safeText content) \<and> 0x3E \<notin> set (safeText content) \<and>
    safeText [] = [] \<and>
    safeText (c # u) =
      (if c = 0x26 then ascii ''&amp;''
       else if c = 0xA0 then ascii ''&nbsp;''
       else if c = 0x3C then ascii ''&lt;''
       else if c = 0x3E then ascii ''&gt;''
       else [c]) @ safeText u \<and>
    ((\<forall>pre cap rest. \<not> matches (ascii ''**'') u pre cap rest) \<longrightarrow> replace_strong u = u) \<and>
    (first_match (ascii ''**'') u pre cap rest \<longrightarrow>
       replace_strong u = pre @ ascii ''<strong>'' @ cap @ ascii ''</strong>'' @ replace_strong rest) \<and>
    ((\<forall>pre cap rest. \<not> matches (ascii ''*'') u pre cap rest) \<longrightarrow> replace_em u = u) \<and>
    (first_match (ascii ''*'') u pre cap rest \<longrightarrow>
       replace_em u = pre @ ascii ''<em>'' @ cap @ ascii ''</em>'' @ replace_em rest) \<and>
    length (replace_bullets True u) = length u \<and>
    (\<forall>i < length u.
       replace_bullets True u ! i =
         (if u ! i = 0x2D \<and> Suc i < length u \<and> u ! Suc i = 0x20 \<and>
             (if i = 0 then True else line_terminator (u ! (i - 1)))
          then 0x2022 else u ! i)) \<and>
    replace_newlines [] = [] \<and>
    replace_newlines (c # u) = (if c = 0x0A then ascii ''<br>'' else [c]) @ replace_newlines u"
proof -
  let ?s0 = "s\<lparr>pending := tl (pending s)\<rparr>"
  let ?m = "replace_newlines (replace_bullets True (replace_em (replace_strong
    (safeText content))))"
  have "settle s (Resolved (Response True (Some data))) =
      reset_processing (append_message (hideThinkingIndicator ?s0) content Bot)"
    by (simp add: settle_def on_response_def on_data_plain [OF assms])
  then have a: "turns (settle s (Resolved (Response True (Some data)))) =
      turns (hideThinkingIndicator s) @
      [Turn (next_eid s) (Message Bot)
         [message_header ''fa-user-md'' ''MediChat Assistant'', Markup ?m]]"
    by (simp add: reset_processing_def turns_update append_message_fields new_message_def
          formattedText_def turns_hideThinkingIndicator_pending hideThinkingIndicator_fields)
  have b: "safe_markup ?m"
    using safe_markup_formattedText [OF safe_markup_safeText [of content]]
    by (simp only: formattedText_def)
  have st: "(\<forall>pre cap rest. \<not> matches (ascii ''**'') u pre cap rest) \<longrightarrow> replace_strong u = u"
    "first_match (ascii ''**'') u pre cap rest \<longrightarrow>
       replace_strong u = pre @ ascii ''<strong>'' @ cap @ ascii ''</strong>'' @ replace_strong rest"
    unfolding replace_strong_def
    using replace_delimited_no_match [of "ascii ''**''" u]
      replace_delimited_first_match [of "ascii ''**''" u pre cap rest]
    by simp_all
  have em: "(\<forall>pre cap rest. \<not> matches (ascii ''*'') u pre cap rest) \<longrightarrow> replace_em u = u"
    "first_match (ascii ''*'') u pre cap rest \<longrightarrow>
       replace_em u = pre @ ascii ''<em>'' @ cap @ ascii ''</em>'' @ replace_em rest"
    unfolding replace_em_def
    using replace_delimited_no_match [of "ascii ''*''" u]
      replace_delimited_first_match [of "ascii ''*''" u pre cap rest]
    by simp_all
  from a b safeText_no_angle [of content] safeText_equations(1) safeText_equations(2) [of c u]
    st em replace_bullets_nth [of True u] replace_newlines_equations(1)
    replace_newlines_equations(2) [of c u]
  show ?thesis by blast
qed

theorem C5_plain_text_rendering_witness:
  "turns (settle (run (initial page_outside) [Input (ascii ''hi''), Click])
     (Resolved (Response True (Some (Obj [(ascii ''response'',
        Str (ascii ''<b> x **bold** and *i*'' @ 0x0A # ascii ''- item''))]))))) =
     [Turn 0 (Message User) [Markup (ascii ''hi'')],
      Turn 2 (Message Bot)
        [message_header ''fa-user-md'' ''MediChat Assistant'',
         Markup (ascii ''&lt;b&gt; x <strong>bold</strong> and <em>i</em><br>'' @
                 0x2022 # ascii '' item'')]] \<and>
   first_match (ascii ''**'') (ascii ''x **a*b** y'') (ascii ''x '') (ascii ''a*b'') (ascii '' y'') \<and>
   replace_strong (ascii ''x **a*b** y'') =
     ascii ''x '' @ ascii ''<strong>'' @ ascii ''a*b'' @ ascii ''</strong>'' @
     replace_strong (ascii '' y'') \<and>
   first_match (ascii ''*'') (ascii ''x *i* y'') (ascii ''x '') (ascii ''i'') (ascii '' y'') \<and>
   replace_em (ascii ''x *i* y'') =
     ascii ''x '' @ ascii ''<em>'' @ ascii ''i'' @ ascii ''</em>'' @ replace_em (ascii '' y'') \<and>
   replace_strong (ascii ''a ** b'') = ascii ''a ** b'' \<and>
   replace_em (ascii ''plain'') = ascii ''plain'' \<and>
   replace_bullets True (ascii ''- a-'') ! 0 = 0x2022"
proof -
  let ?s = "run (initial page_outside) [Input (ascii ''hi''), Click]"
  let ?content = "ascii ''<b> x **bold** and *i*'' @ 0x0A # ascii ''- item''"
  let ?data = "Obj [(ascii ''response'', Str ?content)]"
  have h: "get_prop ?data (ascii ''mode'') = Inr Undefined" "Undefined \<noteq> Str (ascii ''medical'')"
    "get_prop ?data (ascii ''response'') = Inr (Str ?content)"
    "textContent (Str ?content) = Inr ?content"
    by (simp_all add: textContent_def)
  have ev: "turns (hideThinkingIndicator ?s) = [Turn 0 (Message User) [Markup (ascii ''hi'')]]"
    "next_eid ?s = 2"
    "replace_newlines (replace_bullets True (replace_em (replace_strong (safeText ?content)))) =
       ascii ''&lt;b&gt; x <strong>bold</strong> and <em>i</em><br>'' @ 0x2022 # ascii '' item''"
    by code_simp+
  have fs: "first_match (ascii ''**'') (ascii ''x **a*b** y'') (ascii ''x '') (ascii ''a*b'')
      (ascii '' y'')"
    by (rule first_match_found)
       (simp_all add: line_terminator_def starts_with_def less_Suc_eq)
  have fe: "first_match (ascii ''*'') (ascii ''x *i* y'') (ascii ''x '') (ascii ''i'') (ascii '' y'')"
    by (rule first_match_found)
       (simp_all add: line_terminator_def starts_with_def less_Suc_eq)
  have ns: "\<forall>pre cap rest. \<not> matches (ascii ''**'') (ascii ''a ** b'') pre cap rest"
    by (rule no_match_scan)
       (simp_all add: starts_with_def line_terminator_def le_Suc_eq)
  have ne: "\<forall>pre cap rest. \<not> matches (ascii ''*'') (ascii ''plain'') pre cap rest"
    by (intro allI no_match_without_delimiter) simp_all
  note t = C5_plain_text_rendering [OF h]
  from t [of ?s] ev
  have r1: "turns (settle ?s (Resolved (Response True (Some ?data)))) =
     [Turn 0 (Message User) [Markup (ascii ''hi'')],
      Turn 2 (Message Bot)
        [message_header ''fa-user-md'' ''MediChat Assistant'',
         Markup (ascii ''&lt;b&gt; x <strong>bold</strong> and <em>i</em><br>'' @
                 0x2022 # ascii '' item'')]]"
    by simp
  from t [where u = "ascii ''x **a*b** y''" and pre = "ascii ''x ''" and cap = "ascii ''a*b''"
      and rest = "ascii '' y''"] fs
  have r2: "replace_strong (ascii ''x **a*b** y'') =
     ascii ''x '' @ ascii ''<strong>'' @ ascii ''a*b'' @ ascii ''</strong>'' @
     replace_strong (ascii '' y'')"
    by blast
  from t [where u = "ascii ''x *i* y''" and pre = "ascii ''x ''" and cap = "ascii ''i''"
      and rest = "ascii '' y''"] fe
  have r3: "replace_em (ascii ''x *i* y'') =
     ascii ''x '' @ ascii ''<em>'' @ ascii ''i'' @ ascii ''</em>'' @ replace_em (ascii '' y'')"
    by blast
  from t [where u = "ascii ''a ** b''"] ns
  have r4: "replace_strong (ascii ''a ** b'') = ascii ''a ** b''" by blast
  from t [where u = "ascii ''plain''"] ne
  have r5: "replace_em (ascii ''plain'') = ascii ''plain''" by blast
  from t [where u = "ascii ''- a-''"]
  have "\<forall>i < length (ascii ''- a-'').
       replace_bullets True (ascii ''- a-'') ! i =
         (if ascii ''- a-'' ! i = 0x2D \<and> Suc i < length (ascii ''- a-'') \<and>
             ascii ''- a-'' ! Suc i = 0x20 \<and>
             (if i = 0 then True else line_terminator (ascii ''- a-'' ! (i - 1)))
          then 0x2022 else ascii ''- a-'' ! i)"
    by blast
  then have r6: "replace_bullets True (ascii ''- a-'') ! 0 = 0x2022"
    by (simp del: replace_bullets.simps)
  from r1 fs r2 fe r3 r4 r5 r6 show ?thesis by blast
qed

section \<open>The claims about the send flow\<close>

lemma trim_white_space:
  assumes "\<forall>c \<in> set v. white_space c"
  shows "trim v = []"
proof -
  from assms have "dropWhile white_space v = []" by (induction v) auto
  then show ?thesis unfolding trim_def by (simp only: rev.simps dropWhile.simps)
qed

text \<open>
  C1. In every state a session can reach: a request in flight means that the flag is set,
  and at most one request is in flight. While the flag is set, a send attempt (the
  function itself, a click, Enter, a suggestion) appends nothing to the chat box and
  dispatches nothing, and the flag stays set through every event but the settling of the
  response, which clears it.
\<close>

theorem C1_in_flight_guard:
  assumes "s = run (initial p) evs"
  shows "(pending s \<noteq> [] \<longrightarrow> isProcessing s) \<and> length (pending s) \<le> 1 \<and>
    (isProcessing s \<longrightarrow>
       sendMessage s = s \<and> step s Click = s \<and> step s (KeyPress key shiftKey) = s \<and>
       chatBox (step s (Suggestion sug)) = chatBox s \<and>
       pending (step s (Suggestion sug)) = pending s \<and>
       isProcessing (step s (Suggestion sug)) \<and>
       isProcessing (step s (Input v)) \<and>
       \<not> isProcessing (step s (Settle out)) \<and> pending (step s (Settle out)) = [])"
proof -
  from assms have wf: "wf_flight s"
    by (simp add: run_invariants(2) initial_invariants(2))
  then have a: "(pending s \<noteq> [] \<longrightarrow> isProcessing s) \<and> length (pending s) \<le> 1"
    by (simp add: wf_flight_def)
  have b: "sendMessage s = s \<and> step s Click = s \<and> step s (KeyPress key shiftKey) = s \<and>
       chatBox (step s (Suggestion sug)) = chatBox s \<and>
       pending (step s (Suggestion sug)) = pending s \<and>
       isProcessing (step s (Suggestion sug)) \<and>
       isProcessing (step s (Input v)) \<and>
       \<not> isProcessing (step s (Settle out)) \<and> pending (step s (Settle out)) = []"
    if p: "isProcessing s"
  proof -
    from p have sm: "sendMessage s = s" by (simp add: sendMessage_rejected)
    let ?s' = "s\<lparr>userInput_value := sug, sendBtn_disabled := False, userInput_focused := True\<rparr>"
    from p have sg: "step s (Suggestion sug) = ?s'"
      by (simp add: useSuggestion_def sendMessage_rejected)
    from p wf have pd: "pending s \<noteq> []" "tl (pending s) = []"
      by (cases "pending s"; simp add: wf_flight_def)+
    from sm sg p pd show ?thesis
      by (simp add: keypress_handler_def input_handler_def settle_fields)
  qed
  from a b show ?thesis by blast
qed

theorem C1_in_flight_guard_witness:
  "isProcessing (run (initial page_outside) [Input (ascii ''hi''), Click]) \<and>
   pending (run (initial page_outside) [Input (ascii ''hi''), Click]) = [ascii ''hi''] \<and>
   sendMessage (run (initial page_outside) [Input (ascii ''hi''), Click]) =
     run (initial page_outside) [Input (ascii ''hi''), Click] \<and>
   \<not> isProcessing (step (run (initial page_outside) [Input (ascii ''hi''), Click])
        (Settle Rejected))"
proof -
  have "isProcessing (run (initial page_outside) [Input (ascii ''hi''), Click])"
    "pending (run (initial page_outside) [Input (ascii ''hi''), Click]) = [ascii ''hi'']"
    by code_simp+
  with C1_in_flight_guard [OF refl, of page_outside "[Input (ascii ''hi''), Click]"
      "''Enter''" False "[]" "[]" Rejected]
  show ?thesis by simp
qed

text \<open>
  C2. When the input field holds only white space, its trimmed value is empty: the
  \<open>input\<close> listener disables the send button, and sending (by the function, by Enter,
  by a click) changes nothing: no turn is appended, the field keeps its value, no request
  is dispatched.
\<close>

theorem C2_whitespace_input:
  assumes "\<forall>c \<in> set v. white_space c"
  shows "trim v = [] \<and>
    sendBtn_disabled (step s (Input v)) \<and>
    userInput_value (step s (Input v)) = v \<and>
    sendMessage (step s (Input v)) = step s (Input v) \<and>
    step (step s (Input v)) (KeyPress ''Enter'' False) = step s (Input v) \<and>
    step (step s (Input v)) Click = step s (Input v) \<and>
    (userInput_value s = v \<longrightarrow> sendMessage s = s)"
proof -
  from assms have t: "trim v = []" by (rule trim_white_space)
  then have "sendMessage (step s (Input v)) = step s (Input v)"
    by (simp add: sendMessage_rejected input_handler_def)
  with t show ?thesis
    by (simp add: input_handler_def keypress_handler_def sendMessage_rejected)
qed

theorem C2_whitespace_input_witness:
  "list_all white_space [0x20, 0x09, 0x0A, 0xA0] \<and>
   sendBtn_disabled (step (initial page_outside) (Input [0x20, 0x09, 0x0A, 0xA0])) \<and>
   sendMessage (step (initial page_outside) (Input [0x20, 0x09, 0x0A, 0xA0])) =
     step (initial page_outside) (Input [0x20, 0x09, 0x0A, 0xA0])"
proof -
  have h: "\<forall>c \<in> set [0x20, 0x09, 0x0A, 0xA0]. white_space c"
    by (simp add: white_space_def)
  from C2_whitespace_input [OF h, of "initial page_outside"] h
  show ?thesis by (simp add: list_all_iff)
qed

text \<open>
  C3. In every state a session can reach the view holds at most one thinking placeholder.
  \<open>showThinkingIndicator\<close> removes the live one before it appends a new one, so after
  one call, and after two calls in a row, the view holds exactly one: the newest.
\<close>

theorem C3_one_placeholder:
  "length (placeholders (run (initial p) evs)) \<le> 1 \<and>
   placeholders (showThinkingIndicator (run (initial p) evs)) =
     [Turn (next_eid (run (initial p) evs)) ThinkingMessage thinking_parts] \<and>
   placeholders (showThinkingIndicator (showThinkingIndicator (run (initial p) evs))) =
     [Turn (Suc (next_eid (run (initial p) evs))) ThinkingMessage thinking_parts] \<and>
   placeholders (hideThinkingIndicator (run (initial p) evs)) = []"
proof -
  let ?s = "run (initial p) evs"
  have wf: "wf_dom ?s" by (simp add: run_invariants(1) initial_invariants(1))
  then have "length (placeholders ?s) \<le> 1"
    by (simp add: wf_dom_def split: option.splits)
  moreover note wf_dom_showThinkingIndicator [OF wf] wf_dom_hideThinkingIndicator(2) [OF wf]
  moreover have "placeholders (showThinkingIndicator (showThinkingIndicator ?s)) =
      [Turn (Suc (next_eid ?s)) ThinkingMessage thinking_parts]"
    using wf_dom_showThinkingIndicator(2) [OF wf_dom_showThinkingIndicator(1) [OF wf]]
    by (simp add: showThinkingIndicator_fields)
  ultimately show ?thesis by simp
qed

section \<open>Failures, medical turns and the suggestion bubbles\<close>

subsection \<open>More properties of the handlers\<close>

lemma formattedText_apology: "formattedText (safeText apology) = apology"
  by code_simp

lemma hideThinkingIndicator_idem:
  "hideThinkingIndicator (hideThinkingIndicator s) = hideThinkingIndicator s"
  by (simp add: hideThinkingIndicator_def split: option.splits)

lemma on_error_effects:
  assumes "wf_dom s"
  shows "turns (on_error s e) =
      filter (\<lambda>n. \<not> is_placeholder n) (turns s) @
      [Turn (next_eid s) (Message Bot)
         [message_header ''fa-user-md'' ''MediChat Assistant'', Markup apology]]"
    and "placeholders (on_error s e) = []"
proof -
  show t: "turns (on_error s e) =
      filter (\<lambda>n. \<not> is_placeholder n) (turns s) @
      [Turn (next_eid s) (Message Bot)
         [message_header ''fa-user-md'' ''MediChat Assistant'', Markup apology]]"
    by (simp add: on_error_fields hideThinkingIndicator_turns [OF assms] new_message_def
          hideThinkingIndicator_fields formattedText_apology)
  show "placeholders (on_error s e) = []"
    by (simp add: placeholders_turns t)
qed

lemma settle_failure:
  "settle s Rejected = on_error (s\<lparr>pending := tl (pending s)\<rparr>) FetchRejected"
  "settle s (Resolved (Response False body)) =
     on_error (s\<lparr>pending := tl (pending s)\<rparr>) ResponseNotOk"
  "settle s (Resolved (Response True None)) =
     on_error (s\<lparr>pending := tl (pending s)\<rparr>) JsonSyntaxError"
  by (simp_all add: settle_def on_response_def)

lemma send_after_settle:
  assumes wf: "wf_dom s1" and np: "\<not> isProcessing s1" and ph: "placeholders s1 = []"
    and v: "trim v \<noteq> []"
  shows "step (step s1 (Input v)) Click = sendMessage (s1\<lparr>userInput_value := v, sendBtn_disabled := False\<rparr>)"
    and "pending (step (step s1 (Input v)) Click) = pending s1 @ [trim v]"
    and "isProcessing (step (step s1 (Input v)) Click)"
    and "turns (step (step s1 (Input v)) Click) =
      turns s1 @
      [Turn (next_eid s1) (Message User) [Markup (formattedText (safeText (trim v)))],
       Turn (Suc (next_eid s1)) ThinkingMessage thinking_parts]"
proof -
  let ?s2 = "s1\<lparr>userInput_value := v, sendBtn_disabled := False\<rparr>"
  from v show st: "step (step s1 (Input v)) Click = sendMessage ?s2"
    by (simp add: input_handler_def)
  from v np have a: "trim (userInput_value ?s2) \<noteq> []" "\<not> isProcessing ?s2" by simp_all
  from wf have wf2: "wf_dom ?s2" by (simp add: wf_dom_update)
  from ph have "filter (\<lambda>n. \<not> is_placeholder n) (turns s1) = turns s1"
    by (simp add: placeholders_turns filter_empty_conv)
  then have f: "filter (\<lambda>n. \<not> is_placeholder n) (turns ?s2) = turns s1"
    by (simp add: turns_update)
  show "pending (step (step s1 (Input v)) Click) = pending s1 @ [trim v]"
    unfolding st using sendMessage_accepted(5) [OF a] by simp
  show "isProcessing (step (step s1 (Input v)) Click)"
    unfolding st by (rule sendMessage_accepted(1) [OF a])
  show "turns (step (step s1 (Input v)) Click) =
      turns s1 @
      [Turn (next_eid s1) (Message User) [Markup (formattedText (safeText (trim v)))],
       Turn (Suc (next_eid s1)) ThinkingMessage thinking_parts]"
    unfolding st using sendMessage_accepted(9) [OF a wf2] f by simp
qed

lemma symptom_tags_Str: "symptom_tags (map Str xs) = Inr (map symptom_tag xs)"
  by (induction xs) simp_all

lemma on_data_medical:
  assumes "get_prop data (ascii ''mode'') = Inr (Str (ascii ''medical''))"
    and "get_prop data (ascii ''symptoms'') = Inr (Arr (map Str symptoms))"
    and "get_prop data (ascii ''disease'') = Inr disease" and "ToString disease = Inr d"
  shows "on_data s data =
    Inr (reset_processing
      ((hideThinkingIndicator s)
         \<lparr>chatBox := chatBox (hideThinkingIndicator s) @
            [Turn (next_eid s) (Message Medical)
               [message_header ''fa-stethoscope'' ''Symptom Analysis'', category,
                symptomsSection (map symptom_tag symptoms), conditionSection d, disclaimer,
                footer (length symptoms)]],
          injected :=
            (next_eid s,
             parser s (markup (symptomsSection (map symptom_tag symptoms))) @
             parser s (markup (conditionSection d))) # injected s,
          next_eid := Suc (next_eid s)\<rparr>))"
  using assms
  by (simp add: on_data_def addMedicalResponse_def Let_def symptom_tags_Str scrollToBottom_def
        hideThinkingIndicator_fields)

lemma settle_medical:
  assumes "get_prop data (ascii ''mode'') = Inr (Str (ascii ''medical''))"
    and "get_prop data (ascii ''symptoms'') = Inr (Arr (map Str symptoms))"
    and "get_prop data (ascii ''disease'') = Inr disease" and "ToString disease = Inr d"
  shows "turns (settle s (Resolved (Response True (Some data)))) =
      turns (hideThinkingIndicator s) @
      [Turn (next_eid s) (Message Medical)
         [message_header ''fa-stethoscope'' ''Symptom Analysis'', category,
          symptomsSection (map symptom_tag symptoms), conditionSection d, disclaimer,
          footer (length symptoms)]]"
    and "injected (settle s (Resolved (Response True (Some data)))) =
      (next_eid s,
       parser s (markup (symptomsSection (map symptom_tag symptoms))) @
       parser s (markup (conditionSection d))) # injected s"
  by (simp_all add: settle_def Let_def on_response_def on_data_medical [OF assms]
        reset_processing_def turns_def hideThinkingIndicator_fields
        turns_hideThinkingIndicator_pending [unfolded turns_def])

lemma settle_plain:
  assumes "get_prop data (ascii ''mode'') = Inr mode" and "mode \<noteq> Str (ascii ''medical'')"
    and "get_prop data (ascii ''response'') = Inr response"
    and "textContent response = Inr content"
  shows "turns (settle s (Resolved (Response True (Some data)))) =
      turns (hideThinkingIndicator s) @
      [Turn (next_eid s) (Message Bot)
         [message_header ''fa-user-md'' ''MediChat Assistant'',
          Markup (formattedText (safeText content))]]"
  by (simp add: settle_def on_response_def on_data_plain [OF assms] reset_processing_def
        turns_update append_message_fields new_message_def
        turns_hideThinkingIndicator_pending hideThinkingIndicator_fields)









subsection \<open>The claims about failures\<close>

text \<open>
  C4. In every state a session can reach, a request that fails, by a rejection of
  \<open>fetch\<close> or by a response whose status is not ok, whatever its body, leaves the view
  without thinking placeholder, the turns that were there followed by exactly one bot
  turn, the fixed apology (the same for both kinds of failure); the error is logged (the
  two kinds are told apart only there), the flag is cleared, the send button enabled and
  the input field focused. A new message is then accepted at once: typing a text that is
  not blank and clicking appends its user turn and the placeholder and dispatches the
  request.
\<close>

theorem C4_request_failure:
  assumes "s = run (initial p) evs"
    and "(out, e) = (Rejected, FetchRejected) \<or>
         (out, e) = (Resolved (Response False body), ResponseNotOk)"
  shows "placeholders (settle s out) = [] \<and> thinkingMessage (settle s out) = None \<and>
    turns (settle s out) =
      filter (\<lambda>n. \<not> is_placeholder n) (turns s) @
      [Turn (next_eid s) (Message Bot)
         [message_header ''fa-user-md'' ''MediChat Assistant'', Markup apology]] \<and>
    console (settle s out) = console s @ [e] \<and>
    \<not> isProcessing (settle s out) \<and> \<not> sendBtn_disabled (settle s out) \<and>
    userInput_focused (settle s out) \<and> pending (settle s out) = [] \<and>
    (trim v \<noteq> [] \<longrightarrow>
       isProcessing (step (step (settle s out) (Input v)) Click) \<and>
       pending (step (step (settle s out) (Input v)) Click) = [trim v] \<and>
       turns (step (step (settle s out) (Input v)) Click) =
         turns (settle s out) @
         [Turn (Suc (next_eid s)) (Message User) [Markup (formattedText (safeText (trim v)))],
          Turn (Suc (Suc (next_eid s))) ThinkingMessage thinking_parts])"
proof -
  let ?t = "s\<lparr>pending := tl (pending s)\<rparr>"
  let ?u = "settle s out"
  from assms(1) have wf: "wf_dom s" and fl: "wf_flight s"
    by (simp_all add: run_invariants initial_invariants)
  then have wf0: "wf_dom ?t" by (simp add: wf_dom_update)
  from fl have tl: "tl (pending s) = []"
    by (cases "pending s") (simp_all add: wf_flight_def)
  from assms(2) have st: "?u = on_error ?t e"
    by (auto simp: settle_failure)
  have t: "turns ?u =
      filter (\<lambda>n. \<not> is_placeholder n) (turns s) @
      [Turn (next_eid s) (Message Bot)
         [message_header ''fa-user-md'' ''MediChat Assistant'', Markup apology]]"
    unfolding st using on_error_effects(1) [OF wf0, of e] by (simp add: turns_update)
  have ph: "placeholders ?u = []"
    unfolding st by (rule on_error_effects(2) [OF wf0])
  have c: "console ?u = console s @ [e]"
    unfolding st by (simp add: on_error_fields)
  have ne: "next_eid ?u = Suc (next_eid s)"
    unfolding st by (simp add: on_error_fields)
  have pd: "pending ?u = []"
    using tl by (simp add: settle_fields)
  have wf1: "wf_dom ?u" using wf by (rule settle_fields(7))
  have np: "\<not> isProcessing ?u" by (simp add: settle_fields)
  have again: "isProcessing (step (step ?u (Input v)) Click) \<and>
       pending (step (step ?u (Input v)) Click) = [trim v] \<and>
       turns (step (step ?u (Input v)) Click) =
         turns ?u @
         [Turn (Suc (next_eid s)) (Message User) [Markup (formattedText (safeText (trim v)))],
          Turn (Suc (Suc (next_eid s))) ThinkingMessage thinking_parts]"
    if v: "trim v \<noteq> []"
    using send_after_settle(2,3,4) [OF wf1 np ph v] pd ne by simp
  from t ph c pd again show ?thesis
    by (simp add: settle_fields)
qed

theorem C4_request_failure_witness:
  "turns (run (initial page_outside) [Input (ascii ''hi''), Click]) =
     [Turn 0 (Message User) [Markup (ascii ''hi'')], Turn 1 ThinkingMessage thinking_parts] \<and>
   turns (settle (run (initial page_outside) [Input (ascii ''hi''), Click]) Rejected) =
     [Turn 0 (Message User) [Markup (ascii ''hi'')],
      Turn 2 (Message Bot)
        [message_header ''fa-user-md'' ''MediChat Assistant'', Markup apology]] \<and>
   turns (settle (run (initial page_outside) [Input (ascii ''hi''), Click])
            (Resolved (Response False None))) =
     [Turn 0 (Message User) [Markup (ascii ''hi'')],
      Turn 2 (Message Bot)
        [message_header ''fa-user-md'' ''MediChat Assistant'', Markup apology]] \<and>
   console (settle (run (initial page_outside) [Input (ascii ''hi''), Click]) Rejected) =
     [FetchRejected] \<and>
   console (settle (run (initial page_outside) [Input (ascii ''hi''), Click])
              (Resolved (Response False None))) = [ResponseNotOk] \<and>
   placeholders (settle (run (initial page_outside) [Input (ascii ''hi''), Click]) Rejected) = [] \<and>
   \<not> sendBtn_disabled (settle (run (initial page_outside) [Input (ascii ''hi''), Click]) Rejected) \<and>
   pending (step (step (settle (run (initial page_outside) [Input (ascii ''hi''), Click]) Rejected)
                   (Input (ascii '' again ''))) Click) = [ascii ''again'']"
proof -
  let ?s = "run (initial page_outside) [Input (ascii ''hi''), Click]"
  have ev: "turns ?s =
      [Turn 0 (Message User) [Markup (ascii ''hi'')], Turn 1 ThinkingMessage thinking_parts]"
    "next_eid ?s = 2" "console ?s = []"
    "trim (ascii '' again '') = ascii ''again''"
    by code_simp+
  note a = C4_request_failure [where p = page_outside and evs = "[Input (ascii ''hi''), Click]"
      and out = Rejected and e = FetchRejected and v = "ascii '' again ''", OF refl]
  note b = C4_request_failure [where p = page_outside and evs = "[Input (ascii ''hi''), Click]"
      and out = "Resolved (Response False None)" and e = ResponseNotOk and body = None, OF refl]
  from a ev have
    "turns (settle ?s Rejected) =
       [Turn 0 (Message User) [Markup (ascii ''hi'')],
        Turn 2 (Message Bot)
          [message_header ''fa-user-md'' ''MediChat Assistant'', Markup apology]]"
    "console (settle ?s Rejected) = [FetchRejected]"
    "placeholders (settle ?s Rejected) = []"
    "\<not> sendBtn_disabled (settle ?s Rejected)"
    "pending (step (step (settle ?s Rejected) (Input (ascii '' again ''))) Click) = [ascii ''again'']"
    by simp_all
  moreover from b ev have
    "turns (settle ?s (Resolved (Response False None))) =
       [Turn 0 (Message User) [Markup (ascii ''hi'')],
        Turn 2 (Message Bot)
          [message_header ''fa-user-md'' ''MediChat Assistant'', Markup apology]]"
    "console (settle ?s (Resolved (Response False None))) = [ResponseNotOk]"
    by simp_all
  ultimately show ?thesis using ev(1) by blast
qed

text \<open>
  C10. A response whose status is ok and whose body \<open>response.json()\<close> cannot parse
  takes the path of the failures: in every state a session can reach, the script ends in
  the state it ends in when \<open>fetch\<close> is rejected or the status is not ok, but for the
  error that is logged. So the thinking placeholder is removed, the same apology is
  appended as one bot turn, the flag is cleared and the send button enabled.
\<close>

theorem C10_unparsable_body:
  "settle (run (initial p) evs) (Resolved (Response True None)) =
     (settle (run (initial p) evs) Rejected)
       \<lparr>console := console (run (initial p) evs) @ [JsonSyntaxError]\<rparr> \<and>
   settle (run (initial p) evs) (Resolved (Response True None)) =
     (settle (run (initial p) evs) (Resolved (Response False body)))
       \<lparr>console := console (run (initial p) evs) @ [JsonSyntaxError]\<rparr> \<and>
   placeholders (settle (run (initial p) evs) (Resolved (Response True None))) = [] \<and>
   thinkingMessage (settle (run (initial p) evs) (Resolved (Response True None))) = None \<and>
   turns (settle (run (initial p) evs) (Resolved (Response True None))) =
     filter (\<lambda>n. \<not> is_placeholder n) (turns (run (initial p) evs)) @
     [Turn (next_eid (run (initial p) evs)) (Message Bot)
        [message_header ''fa-user-md'' ''MediChat Assistant'', Markup apology]] \<and>
   \<not> isProcessing (settle (run (initial p) evs) (Resolved (Response True None))) \<and>
   \<not> sendBtn_disabled (settle (run (initial p) evs) (Resolved (Response True None)))"
proof -
  let ?s = "run (initial p) evs"
  let ?t = "?s\<lparr>pending := tl (pending ?s)\<rparr>"
  have wf0: "wf_dom ?t"
    by (simp add: wf_dom_update run_invariants(1) initial_invariants(1))
  have eq: "on_error ?t JsonSyntaxError = (on_error ?t e)\<lparr>console := console ?s @ [JsonSyntaxError]\<rparr>"
    for e
    by (simp add: on_error_eq reset_processing_def)
  have a: "settle ?s (Resolved (Response True None)) =
      (settle ?s Rejected)\<lparr>console := console ?s @ [JsonSyntaxError]\<rparr>"
    "settle ?s (Resolved (Response True None)) =
      (settle ?s (Resolved (Response False body)))\<lparr>console := console ?s @ [JsonSyntaxError]\<rparr>"
    unfolding settle_failure by (rule eq)+
  have b: "turns (settle ?s (Resolved (Response True None))) =
     filter (\<lambda>n. \<not> is_placeholder n) (turns ?s) @
     [Turn (next_eid ?s) (Message Bot)
        [message_header ''fa-user-md'' ''MediChat Assistant'', Markup apology]]"
    "placeholders (settle ?s (Resolved (Response True None))) = []"
    unfolding settle_failure
    using on_error_effects [OF wf0, of JsonSyntaxError] by (simp_all add: turns_update)
  from a b show ?thesis
    by (simp add: settle_fields)
qed

theorem C10_unparsable_body_witness:
  "turns (settle (run (initial page_outside) [Input (ascii ''hi''), Click])
            (Resolved (Response True None))) =
     [Turn 0 (Message User) [Markup (ascii ''hi'')],
      Turn 2 (Message Bot)
        [message_header ''fa-user-md'' ''MediChat Assistant'', Markup apology]] \<and>
   placeholders (settle (run (initial page_outside) [Input (ascii ''hi''), Click])
                   (Resolved (Response True None))) = [] \<and>
   \<not> isProcessing (settle (run (initial page_outside) [Input (ascii ''hi''), Click])
                       (Resolved (Response True None))) \<and>
   \<not> sendBtn_disabled (settle (run (initial page_outside) [Input (ascii ''hi''), Click])
                           (Resolved (Response True None)))"
proof -
  let ?s = "run (initial page_outside) [Input (ascii ''hi''), Click]"
  have ev: "filter (\<lambda>n. \<not> is_placeholder n) (turns ?s) =
      [Turn 0 (Message User) [Markup (ascii ''hi'')]]"
    "next_eid ?s = 2"
    by code_simp+
  note t = C10_unparsable_body [of page_outside "[Input (ascii ''hi''), Click]" None]
  from t have "turns (settle ?s (Resolved (Response True None))) =
     filter (\<lambda>n. \<not> is_placeholder n) (turns ?s) @
     [Turn (next_eid ?s) (Message Bot)
        [message_header ''fa-user-md'' ''MediChat Assistant'', Markup apology]]"
    by blast
  with ev have "turns (settle ?s (Resolved (Response True None))) =
     [Turn 0 (Message User) [Markup (ascii ''hi'')],
      Turn 2 (Message Bot)
        [message_header ''fa-user-md'' ''MediChat Assistant'', Markup apology]]"
    by simp
  with t show ?thesis by blast
qed

subsection \<open>The claims about medical turns\<close>

text \<open>
  C8. A payload whose mode is \<open>medical\<close> and whose \<open>symptoms\<close> is not an array (it is
  \<open>undefined\<close> when the payload has no such property) makes the medical renderer throw
  a \<open>TypeError\<close>: nothing is rendered, and nothing validates the payload before. The
  handler of the response ends there, with the thinking placeholder already removed, and
  the failure path takes over: the turn that is appended is the apology, not a medical
  turn, and the error is logged.
\<close>

theorem C8_malformed_medical_payload:
  assumes "get_prop data (ascii ''mode'') = Inr (Str (ascii ''medical''))"
    and "get_prop data (ascii ''symptoms'') = Inr v" and "\<forall>xs. v \<noteq> Arr xs"
  shows "addMedicalResponse s data = Inl TypeError \<and>
    on_data s data = Inl (TypeError, hideThinkingIndicator s) \<and>
    settle s (Resolved (Response True (Some data))) =
      on_error (hideThinkingIndicator (s\<lparr>pending := tl (pending s)\<rparr>)) TypeError \<and>
    turns (settle s (Resolved (Response True (Some data)))) =
      turns (hideThinkingIndicator s) @
      [Turn (next_eid s) (Message Bot)
         [message_header ''fa-user-md'' ''MediChat Assistant'', Markup apology]] \<and>
    console (settle s (Resolved (Response True (Some data)))) = console s @ [TypeError] \<and>
    (map_of kvs (ascii ''symptoms'') = None \<longrightarrow> addMedicalResponse s (Obj kvs) = Inl TypeError)"
proof -
  let ?t = "s\<lparr>pending := tl (pending s)\<rparr>"
  from assms(3) have m: "symptoms_map v = Inl TypeError"
    by (cases v) simp_all
  with assms(2) have a: "addMedicalResponse s' data = Inl TypeError" for s'
    by (simp add: addMedicalResponse_def)
  with assms(1) have b: "on_data s' data = Inl (TypeError, hideThinkingIndicator s')" for s'
    by (simp add: on_data_def Let_def)
  then have c: "settle s (Resolved (Response True (Some data))) =
      on_error (hideThinkingIndicator ?t) TypeError"
    by (simp add: settle_def on_response_def)
  have d: "turns (settle s (Resolved (Response True (Some data)))) =
      turns (hideThinkingIndicator s) @
      [Turn (next_eid s) (Message Bot)
         [message_header ''fa-user-md'' ''MediChat Assistant'', Markup apology]]"
    unfolding c
    by (simp add: on_error_fields hideThinkingIndicator_idem new_message_def
          hideThinkingIndicator_fields formattedText_apology turns_hideThinkingIndicator_pending)
  have e: "console (settle s (Resolved (Response True (Some data)))) = console s @ [TypeError]"
    unfolding c by (simp add: on_error_fields hideThinkingIndicator_fields)
  have f: "map_of kvs (ascii ''symptoms'') = None \<longrightarrow> addMedicalResponse s (Obj kvs) = Inl TypeError"
    by (simp add: addMedicalResponse_def)
  from a [of s] b [of s] c d e f show ?thesis by blast
qed

theorem C8_malformed_medical_payload_witness:
  "addMedicalResponse (run (initial page_outside) [Input (ascii ''hi''), Click])
     (Obj [(ascii ''mode'', Str (ascii ''medical'')), (ascii ''disease'', Str (ascii ''Flu''))]) =
     Inl TypeError \<and>
   turns (settle (run (initial page_outside) [Input (ascii ''hi''), Click])
     (Resolved (Response True (Some
        (Obj [(ascii ''mode'', Str (ascii ''medical'')),
              (ascii ''disease'', Str (ascii ''Flu''))]))))) =
     [Turn 0 (Message User) [Markup (ascii ''hi'')],
      Turn 2 (Message Bot)
        [message_header ''fa-user-md'' ''MediChat Assistant'', Markup apology]] \<and>
   addMedicalResponse (run (initial page_outside) [Input (ascii ''hi''), Click])
     (Obj [(ascii ''mode'', Str (ascii ''medical'')), (ascii ''symptoms'', Str (ascii ''fever'')),
           (ascii ''disease'', Str (ascii ''Flu''))]) =
     Inl TypeError"
proof -
  let ?s = "(run (initial page_outside) [Input (ascii ''hi''), Click])"
  let ?a = "Obj [(ascii ''mode'', Str (ascii ''medical'')), (ascii ''disease'', Str (ascii ''Flu''))]"
  let ?b = "Obj [(ascii ''mode'', Str (ascii ''medical'')), (ascii ''symptoms'', Str (ascii ''fever'')),
           (ascii ''disease'', Str (ascii ''Flu''))]"
  have ha: "get_prop ?a (ascii ''mode'') = Inr (Str (ascii ''medical''))"
    "get_prop ?a (ascii ''symptoms'') = Inr Undefined" "\<forall>xs. Undefined \<noteq> Arr xs"
    by simp_all
  have hb: "get_prop ?b (ascii ''mode'') = Inr (Str (ascii ''medical''))"
    "get_prop ?b (ascii ''symptoms'') = Inr (Str (ascii ''fever''))"
    "\<forall>xs. Str (ascii ''fever'') \<noteq> Arr xs"
    by simp_all
  have ev: "turns (hideThinkingIndicator ?s) = [Turn 0 (Message User) [Markup (ascii ''hi'')]]"
    "next_eid ?s = 2"
    by code_simp+
  note a = C8_malformed_medical_payload [OF ha, of ?s "[]"]
  note b = C8_malformed_medical_payload [OF hb, of ?s "[]"]
  from a have a1: "addMedicalResponse ?s ?a = Inl TypeError" by blast
  from a have "turns (settle ?s (Resolved (Response True (Some ?a)))) =
      turns (hideThinkingIndicator ?s) @
      [Turn (next_eid ?s) (Message Bot)
         [message_header ''fa-user-md'' ''MediChat Assistant'', Markup apology]]"
    by blast
  with ev have a2: "turns (settle ?s (Resolved (Response True (Some ?a)))) =
     [Turn 0 (Message User) [Markup (ascii ''hi'')],
      Turn 2 (Message Bot)
        [message_header ''fa-user-md'' ''MediChat Assistant'', Markup apology]]"
    by simp
  from b have b1: "addMedicalResponse ?s ?b = Inl TypeError" by blast
  from a1 a2 b1 show ?thesis by blast
qed



text \<open>
  C9. The medical renderer puts the strings of the server into the markup as they are:
  for every symptom \<open>x\<close> and every disease \<open>d\<close> the chip holds \<open>x\<close> with nothing but
  its underscores replaced, the condition line holds \<open>d\<close> itself, and both sections are
  handed to the browser's parser. The plain branch renders the same string \<open>d\<close> through
  \<open>safeText\<close>, which leaves no \<open><\<close> and no \<open>>\<close>. So the two differ: for \<open><b>\<close>
  the medical turn holds \<open><b>\<close>, in the chip and in the condition line, where the plain
  turn holds \<open>&lt;b&gt;\<close>.
\<close>

theorem C9_medical_raw_markup:
  \<open>turns (settle s (Resolved (Response True (Some
            (Obj [(ascii ''mode'', Str (ascii ''medical'')),
                 (ascii ''symptoms'', Arr [Str x]),
                 (ascii ''disease'', Str d)]))))) =
     turns (hideThinkingIndicator s) @
     [Turn (next_eid s) (Message Medical)
        [message_header ''fa-stethoscope'' ''Symptom Analysis'',
         category,
         Div []
           (lf 20 @ ascii ''<strong>Reported symptoms:</strong>'' @
            lf 20 @ ascii ''<div class="symptom-list">'' @
            lf 24 @ ascii ''<span class="symptom-tag">'' @ replace_underscores x @
              ascii ''</span>'' @
            lf 20 @ ascii ''</div>'' @
            lf 16),
         Div ''medical-content''
           (lf 20 @ ascii ''<strong>Possible condition:</strong> '' @ d @ lf 16),
         disclaimer,
         footer 1]] \<and>
   injected (settle s (Resolved (Response True (Some
            (Obj [(ascii ''mode'', Str (ascii ''medical'')),
                 (ascii ''symptoms'', Arr [Str x]),
                 (ascii ''disease'', Str d)]))))) =
     (next_eid s,
      parser s
        (lf 20 @ ascii ''<strong>Reported symptoms:</strong>'' @
         lf 20 @ ascii ''<div class="symptom-list">'' @
         lf 24 @ ascii ''<span class="symptom-tag">'' @ replace_underscores x @
           ascii ''</span>'' @
         lf 20 @ ascii ''</div>'' @
         lf 16) @
      parser s (lf 20 @ ascii ''<strong>Possible condition:</strong> '' @ d @ lf 16)) #
     injected s \<and>
   turns (settle s (Resolved (Response True (Some (Obj [(ascii ''response'', Str d)]))))) =
     turns (hideThinkingIndicator s) @
     [Turn (next_eid s) (Message Bot)
        [message_header ''fa-user-md'' ''MediChat Assistant'',
         Markup (formattedText (safeText d))]] \<and>
   0x3C \<notin> set (safeText d) \<and> 0x3E \<notin> set (safeText d) \<and>
   replace_underscores (ascii ''<b>'') = ascii ''<b>'' \<and>
   formattedText (safeText (ascii ''<b>'')) = ascii ''&lt;b&gt;'' \<and>
   formattedText (safeText (ascii ''<b>'')) \<noteq> ascii ''<b>''\<close>
proof -
  let ?m = "(Obj [(ascii ''mode'', Str (ascii ''medical'')),
                 (ascii ''symptoms'', Arr [Str x]),
                 (ascii ''disease'', Str d)])"
  let ?p = "Obj [(ascii ''response'', Str d)]"
  have h: "get_prop ?m (ascii ''mode'') = Inr (Str (ascii ''medical''))"
    "get_prop ?m (ascii ''symptoms'') = Inr (Arr (map Str [x]))"
    "get_prop ?m (ascii ''disease'') = Inr (Str d)"
    "ToString (Str d) = Inr d"
    by simp_all
  have hp: "get_prop ?p (ascii ''mode'') = Inr Undefined" "Undefined \<noteq> Str (ascii ''medical'')"
    "get_prop ?p (ascii ''response'') = Inr (Str d)" "textContent (Str d) = Inr d"
    by (simp_all add: textContent_def)
  have a: \<open>turns (settle s (Resolved (Response True (Some ?m)))) =
     turns (hideThinkingIndicator s) @
     [Turn (next_eid s) (Message Medical)
        [message_header ''fa-stethoscope'' ''Symptom Analysis'',
         category,
         Div []
           (lf 20 @ ascii ''<strong>Reported symptoms:</strong>'' @
            lf 20 @ ascii ''<div class="symptom-list">'' @
            lf 24 @ ascii ''<span class="symptom-tag">'' @ replace_underscores x @
              ascii ''</span>'' @
            lf 20 @ ascii ''</div>'' @
            lf 16),
         Div ''medical-content''
           (lf 20 @ ascii ''<strong>Possible condition:</strong> '' @ d @ lf 16),
         disclaimer,
         footer 1]]\<close>
    using settle_medical(1) [OF h, of s]
    by (simp add: symptomsSection_def conditionSection_def symptom_tag_def)
  have b: \<open>injected (settle s (Resolved (Response True (Some ?m)))) =
     (next_eid s,
      parser s
        (lf 20 @ ascii ''<strong>Reported symptoms:</strong>'' @
         lf 20 @ ascii ''<div class="symptom-list">'' @
         lf 24 @ ascii ''<span class="symptom-tag">'' @ replace_underscores x @
           ascii ''</span>'' @
         lf 20 @ ascii ''</div>'' @
         lf 16) @
      parser s (lf 20 @ ascii ''<strong>Possible condition:</strong> '' @ d @ lf 16)) #
     injected s\<close>
    using settle_medical(2) [OF h, of s]
    by (simp add: symptomsSection_def conditionSection_def symptom_tag_def)
  note c = settle_plain [OF hp, of s]
  have e: "replace_underscores (ascii ''<b>'') = ascii ''<b>''"
    "formattedText (safeText (ascii ''<b>'')) = ascii ''&lt;b&gt;''"
    "formattedText (safeText (ascii ''<b>'')) \<noteq> ascii ''<b>''"
    by code_simp+
  from a b c safeText_no_angle [of d] e show ?thesis by blast
qed

subsection \<open>The claim about the suggestion bubbles\<close>




end
